theory Spec2Isabelle
  imports Main "HOL-Library.Word"
begin

section \<open>Key cancellation: data model\<close>

text \<open>
  Embedding of \<^verbatim>\<open>quantum/process_keycode/process_key_cancellation.c\<close>.
  Keycodes are \<^verbatim>\<open>uint16_t\<close>. The two module-level arrays have
  \<^verbatim>\<open>KEYREPORT_BUFFER_SIZE\<close> slots each and are lists here; every read and write
  of the source is at an index below \<^verbatim>\<open>buffer_keyreport_count\<close>, which the
  source keeps between 0 and 10 (it is incremented only below 10 and decremented only
  after a hit at an index below it), so the C \<^verbatim>\<open>int\<close> counter is a \<open>nat\<close>.
\<close>

type_synonym keycode = "16 word"

record key_cancellation_t =
  press :: keycode
  unpress :: keycode

record keymap_config_t =
  key_cancellation_enable :: bool
  key_cancellation_recovery_enable :: bool

text \<open>Of \<^verbatim>\<open>keyrecord_t\<close> the source reads \<^verbatim>\<open>record->event.pressed\<close> only.\<close>

record keyrecord_t =
  pressed :: bool

text \<open>
  What the handler does to its collaborators, in call order: \<^verbatim>\<open>del_key\<close> and
  \<^verbatim>\<open>add_key\<close> on the host report, \<^verbatim>\<open>eeconfig_update_keymap\<close> on the
  persistent store.
\<close>

datatype action =
    Del_key keycode
  | Add_key keycode
  | Eeconfig_update_keymap keymap_config_t

record engine =
  buffer_keyreports :: "keycode list"
  buffer_keyreport_count :: nat
  buffer_keyreports_temp :: "keycode list"
  keymap_config :: keymap_config_t

text \<open>
  The parts of the firmware the file uses and does not define are parameters: the
  cancellation table behind \<^verbatim>\<open>key_cancellation_count\<close> and
  \<^verbatim>\<open>key_cancellation_get\<close>, the macro \<^verbatim>\<open>IS_BASIC_KEYCODE\<close>, the weak hook
  \<^verbatim>\<open>process_key_cancellation_user\<close> (whatever the keymap links in) and the six
  control keycodes.
\<close>

record environment =
  key_cancellation_table :: "key_cancellation_t list"
  IS_BASIC_KEYCODE :: "keycode \<Rightarrow> bool"
  process_key_cancellation_user :: "keycode \<Rightarrow> keyrecord_t \<Rightarrow> bool"
  QK_KEY_CANCELLATION_ON :: keycode
  QK_KEY_CANCELLATION_OFF :: keycode
  QK_KEY_CANCELLATION_TOGGLE :: keycode
  QK_KEY_CANCELLATION_RECOVERY_ON :: keycode
  QK_KEY_CANCELLATION_RECOVERY_OFF :: keycode
  QK_KEY_CANCELLATION_RECOVERY_TOGGLE :: keycode

definition KEYREPORT_BUFFER_SIZE :: nat where
  "KEYREPORT_BUFFER_SIZE = 10"

definition initial_engine :: "keymap_config_t \<Rightarrow> engine" where
  "initial_engine cfg =
     \<lparr>buffer_keyreports = replicate KEYREPORT_BUFFER_SIZE 0,
      buffer_keyreport_count = 0,
      buffer_keyreports_temp = replicate KEYREPORT_BUFFER_SIZE 0,
      keymap_config = cfg\<rparr>"

section \<open>Mode control\<close>

definition key_cancellation_enable_op :: "engine \<Rightarrow> action list \<times> engine" where
  "key_cancellation_enable_op s =
     (let c = (keymap_config s)\<lparr>key_cancellation_enable := True\<rparr>
      in ([Eeconfig_update_keymap c], s\<lparr>keymap_config := c\<rparr>))"

definition key_cancellation_disable :: "engine \<Rightarrow> action list \<times> engine" where
  "key_cancellation_disable s =
     (let c = (keymap_config s)\<lparr>key_cancellation_enable := False\<rparr>
      in ([Eeconfig_update_keymap c], s\<lparr>keymap_config := c\<rparr>))"

definition key_cancellation_toggle :: "engine \<Rightarrow> action list \<times> engine" where
  "key_cancellation_toggle s =
     (let c = (keymap_config s)
                \<lparr>key_cancellation_enable := \<not> key_cancellation_enable (keymap_config s)\<rparr>
      in ([Eeconfig_update_keymap c], s\<lparr>keymap_config := c\<rparr>))"

definition key_cancellation_recovery_is_enabled :: "engine \<Rightarrow> bool" where
  "key_cancellation_recovery_is_enabled s \<longleftrightarrow>
     key_cancellation_enable (keymap_config s) \<and>
     key_cancellation_recovery_enable (keymap_config s)"

definition key_cancellation_recovery_enable_op :: "engine \<Rightarrow> action list \<times> engine" where
  "key_cancellation_recovery_enable_op s =
     (let c = (keymap_config s)\<lparr>key_cancellation_recovery_enable := True\<rparr>
      in ([Eeconfig_update_keymap c], s\<lparr>keymap_config := c\<rparr>))"

definition key_cancellation_recovery_disable :: "engine \<Rightarrow> action list \<times> engine" where
  "key_cancellation_recovery_disable s =
     (let c = (keymap_config s)\<lparr>key_cancellation_recovery_enable := False\<rparr>
      in ([Eeconfig_update_keymap c], s\<lparr>keymap_config := c\<rparr>))"

definition key_cancellation_recovery_toggle :: "engine \<Rightarrow> action list \<times> engine" where
  "key_cancellation_recovery_toggle s =
     (let c = (keymap_config s)
                \<lparr>key_cancellation_recovery_enable :=
                   \<not> key_cancellation_recovery_enable (keymap_config s)\<rparr>
      in ([Eeconfig_update_keymap c], s\<lparr>keymap_config := c\<rparr>))"

section \<open>Hold buffer\<close>

text \<open>The loop of \<^verbatim>\<open>key_cancellation_is_key_in_buffer\<close>, from index \<open>i\<close> on.\<close>

function is_key_in_buffer_from :: "keycode list \<Rightarrow> nat \<Rightarrow> keycode \<Rightarrow> nat \<Rightarrow> bool" where
  "is_key_in_buffer_from buf n k i =
     (if i < n then (if buf ! i = k then True else is_key_in_buffer_from buf n k (Suc i))
      else False)"
  by pat_completeness auto
termination
  by (relation "measure (\<lambda>(buf, n, k, i). n - i)") auto

definition key_cancellation_is_key_in_buffer :: "engine \<Rightarrow> keycode \<Rightarrow> bool" where
  "key_cancellation_is_key_in_buffer s k =
     is_key_in_buffer_from (buffer_keyreports s) (buffer_keyreport_count s) k 0"

definition add_key_buffer :: "engine \<Rightarrow> keycode \<Rightarrow> engine" where
  "add_key_buffer s k =
     (if key_cancellation_is_key_in_buffer s k then s
      else if buffer_keyreport_count s \<ge> KEYREPORT_BUFFER_SIZE then s
      else s\<lparr>buffer_keyreports := (buffer_keyreports s)[buffer_keyreport_count s := k],
             buffer_keyreport_count := buffer_keyreport_count s + 1\<rparr>)"

text \<open>
  The inner loop of \<^verbatim>\<open>del_key_buffer\<close>: \<^verbatim>\<open>for (j = i; j < count - 1; j++)\<close>.
  It runs only after a hit at an index below the count, so the count is positive
  and \<open>n - 1\<close> does not truncate.
\<close>

function shift_buffer_from :: "keycode list \<Rightarrow> nat \<Rightarrow> nat \<Rightarrow> keycode list" where
  "shift_buffer_from buf n j =
     (if j < n - 1 then shift_buffer_from (buf[j := buf ! (j + 1)]) n (Suc j) else buf)"
  by pat_completeness auto
termination
  by (relation "measure (\<lambda>(buf, n, j). n - j)") auto

function del_key_buffer_from :: "engine \<Rightarrow> keycode \<Rightarrow> nat \<Rightarrow> engine" where
  "del_key_buffer_from s k i =
     (if i < buffer_keyreport_count s then
        (if buffer_keyreports s ! i = k then
           s\<lparr>buffer_keyreports :=
                shift_buffer_from (buffer_keyreports s) (buffer_keyreport_count s) i,
             buffer_keyreport_count := buffer_keyreport_count s - 1\<rparr>
         else del_key_buffer_from s k (Suc i))
      else s)"
  by pat_completeness auto
termination
  by (relation "measure (\<lambda>(s, k, i). buffer_keyreport_count s - i)") auto

definition del_key_buffer :: "engine \<Rightarrow> keycode \<Rightarrow> engine" where
  "del_key_buffer s k = del_key_buffer_from s k 0"

text \<open>\<^verbatim>\<open>del_key_buffer_temp\<close>: the first hit below \<open>end_index\<close> becomes 0.\<close>

function del_key_buffer_temp_from :: "keycode list \<Rightarrow> keycode \<Rightarrow> nat \<Rightarrow> nat \<Rightarrow> keycode list" where
  "del_key_buffer_temp_from tmp k end_index i =
     (if i < end_index then
        (if tmp ! i = k then tmp[i := 0]
         else del_key_buffer_temp_from tmp k end_index (Suc i))
      else tmp)"
  by pat_completeness auto
termination
  by (relation "measure (\<lambda>(tmp, k, end_index, i). end_index - i)") auto

definition del_key_buffer_temp :: "engine \<Rightarrow> keycode \<Rightarrow> nat \<Rightarrow> engine" where
  "del_key_buffer_temp s k end_index =
     s\<lparr>buffer_keyreports_temp :=
         del_key_buffer_temp_from (buffer_keyreports_temp s) k end_index 0\<rparr>"

fun key_cancellation_is_key_in_press_list :: "key_cancellation_t list \<Rightarrow> keycode \<Rightarrow> bool" where
  "key_cancellation_is_key_in_press_list [] k = False"
| "key_cancellation_is_key_in_press_list (p # ps) k =
     (if press p = k then True else key_cancellation_is_key_in_press_list ps k)"

section \<open>The handler\<close>

text \<open>The \<^verbatim>\<open>switch\<close> on the press edge; \<open>None\<close> is the \<^verbatim>\<open>default\<close> branch.\<close>

definition control_switch :: "environment \<Rightarrow> keycode \<Rightarrow> engine \<Rightarrow> (action list \<times> engine) option" where
  "control_switch e keycode s =
     (if keycode = QK_KEY_CANCELLATION_ON e then Some (key_cancellation_enable_op s)
      else if keycode = QK_KEY_CANCELLATION_OFF e then Some (key_cancellation_disable s)
      else if keycode = QK_KEY_CANCELLATION_TOGGLE e then Some (key_cancellation_toggle s)
      else if keycode = QK_KEY_CANCELLATION_RECOVERY_ON e
        then Some (key_cancellation_recovery_enable_op s)
      else if keycode = QK_KEY_CANCELLATION_RECOVERY_OFF e
        then Some (key_cancellation_recovery_disable s)
      else if keycode = QK_KEY_CANCELLATION_RECOVERY_TOGGLE e
        then Some (key_cancellation_recovery_toggle s)
      else None)"

text \<open>The press path: one \<^verbatim>\<open>del_key\<close> for each pair, in table order, whose press is the keycode.\<close>

fun press_path :: "key_cancellation_t list \<Rightarrow> keycode \<Rightarrow> action list" where
  "press_path [] keycode = []"
| "press_path (p # ps) keycode =
     (if keycode = press p then [Del_key (unpress p)] else []) @ press_path ps keycode"

text \<open>The body of the release path's inner loop, for one pair at snapshot position \<open>j\<close>.\<close>

definition scan_pair :: "key_cancellation_t \<Rightarrow> nat \<Rightarrow> engine \<Rightarrow> engine" where
  "scan_pair p j s =
     (if press p = buffer_keyreports_temp s ! j then
        (if key_cancellation_is_key_in_buffer s (unpress p)
         then del_key_buffer_temp s (unpress p) j else s)
      else s)"

fun scan_pairs :: "key_cancellation_t list \<Rightarrow> nat \<Rightarrow> engine \<Rightarrow> engine" where
  "scan_pairs [] j s = s"
| "scan_pairs (p # ps) j s = scan_pairs ps j (scan_pair p j s)"

text \<open>
  The outer loop \<^verbatim>\<open>for (j = count - 1; j >= 0; j--)\<close>: \<open>scan_snapshot ps n\<close> runs
  the positions \<open>n - 1\<close> down to 0.
\<close>

fun scan_snapshot :: "key_cancellation_t list \<Rightarrow> nat \<Rightarrow> engine \<Rightarrow> engine" where
  "scan_snapshot ps 0 s = s"
| "scan_snapshot ps (Suc j) s = scan_snapshot ps j (scan_pairs ps j s)"

text \<open>The comparison loop of the release path, from index \<open>i\<close> on.\<close>

function compare_buffers_from :: "engine \<Rightarrow> nat \<Rightarrow> action list" where
  "compare_buffers_from s i =
     (if i < buffer_keyreport_count s then
        (if buffer_keyreports s ! i \<noteq> buffer_keyreports_temp s ! i then
           (if buffer_keyreports_temp s ! i = 0 then [Del_key (buffer_keyreports s ! i)] else [])
         else [Add_key (buffer_keyreports_temp s ! i)])
        @ compare_buffers_from s (Suc i)
      else [])"
  by pat_completeness auto
termination
  by (relation "measure (\<lambda>(s, i). buffer_keyreport_count s - i)") auto

text \<open>
  \<^verbatim>\<open>process_key_cancellation\<close>: the return value, the calls made, the state left.
  \<^verbatim>\<open>memcpy\<close> copies the whole array.
\<close>

definition process_key_cancellation ::
  "environment \<Rightarrow> keycode \<Rightarrow> keyrecord_t \<Rightarrow> engine \<Rightarrow> bool \<times> action list \<times> engine" where
  "process_key_cancellation e keycode record s =
     (case (if pressed record then control_switch e keycode s else None) of
        Some (acts, s') \<Rightarrow> (False, acts, s')
      | None \<Rightarrow>
         if \<not> key_cancellation_enable (keymap_config s) then (True, [], s)
         else if \<not> IS_BASIC_KEYCODE e keycode then (True, [], s)
         else if \<not> process_key_cancellation_user e keycode record then (True, [], s)
         else if \<not> key_cancellation_recovery_enable (keymap_config s) \<and> \<not> pressed record
           then (True, [], s)
         else
           let s1 = (if key_cancellation_recovery_enable (keymap_config s) then
                       (if key_cancellation_is_key_in_press_list (key_cancellation_table e) keycode
                        then (if pressed record then add_key_buffer s keycode
                              else del_key_buffer s keycode)
                        else s)
                     else s)
           in if key_cancellation_recovery_enable (keymap_config s)
                 \<and> buffer_keyreport_count s1 = 0 then (True, [], s1)
              else
                let s2 = s1\<lparr>buffer_keyreports_temp := buffer_keyreports s1\<rparr>
                in if pressed record
                   then (True, press_path (key_cancellation_table e) keycode, s2)
                   else
                     let s3 = scan_snapshot (key_cancellation_table e)
                                (buffer_keyreport_count s2) s2
                     in (True, compare_buffers_from s3 0, s3))"

text \<open>The caller: one call of the handler for each key event, in order.\<close>

fun run_events :: "environment \<Rightarrow> (keycode \<times> bool) list \<Rightarrow> engine \<Rightarrow> engine" where
  "run_events e [] s = s"
| "run_events e ((k, p) # evs) s =
     run_events e evs (snd (snd (process_key_cancellation e k \<lparr>pressed = p\<rparr> s)))"

definition control_keycodes :: "environment \<Rightarrow> keycode list" where
  "control_keycodes e =
     [QK_KEY_CANCELLATION_ON e, QK_KEY_CANCELLATION_OFF e, QK_KEY_CANCELLATION_TOGGLE e,
      QK_KEY_CANCELLATION_RECOVERY_ON e, QK_KEY_CANCELLATION_RECOVERY_OFF e,
      QK_KEY_CANCELLATION_RECOVERY_TOGGLE e]"

section \<open>Notions used to state the properties\<close>

text \<open>The tracked part of the hold buffer: the slots below the count.\<close>

definition hold_buffer :: "engine \<Rightarrow> keycode list" where
  "hold_buffer s = take (buffer_keyreport_count s) (buffer_keyreports s)"

definition snapshot :: "engine \<Rightarrow> keycode list" where
  "snapshot s = take (buffer_keyreport_count s) (buffer_keyreports_temp s)"

text \<open>Both arrays have their ten slots and the count is within them.\<close>

definition engine_wf :: "engine \<Rightarrow> bool" where
  "engine_wf s \<longleftrightarrow>
     length (buffer_keyreports s) = KEYREPORT_BUFFER_SIZE \<and>
     length (buffer_keyreports_temp s) = KEYREPORT_BUFFER_SIZE \<and>
     buffer_keyreport_count s \<le> KEYREPORT_BUFFER_SIZE"

definition buffer_ok :: "engine \<Rightarrow> bool" where
  "buffer_ok s \<longleftrightarrow> engine_wf s \<and> distinct (hold_buffer s)"

text \<open>In the snapshot a keycode other than the empty marker occurs at most once.\<close>

definition snapshot_ok :: "engine \<Rightarrow> bool" where
  "snapshot_ok s \<longleftrightarrow>
     buffer_keyreport_count s \<le> length (buffer_keyreports_temp s) \<and>
     distinct (filter (\<lambda>k. k \<noteq> 0) (snapshot s))"

text \<open>
  The release pass stopped early: \<open>scan_above ps j d\<close> runs the positions \<open>j + d\<close>
  down to \<open>j + 1\<close>, in the order of the source's outer loop. With
  \<open>d = count - 1 - j\<close> it gives the state in which the scan reaches position \<open>j\<close>.
\<close>

fun scan_above :: "key_cancellation_t list \<Rightarrow> nat \<Rightarrow> nat \<Rightarrow> engine \<Rightarrow> engine" where
  "scan_above ps j 0 s = s"
| "scan_above ps j (Suc d) s = scan_above ps j d (scan_pairs ps (j + Suc d) s)"

text \<open>
  A keycode that gets through the checks in front of the algorithm: no control keycode,
  basic, and accepted by the user hook on both edges.
\<close>

definition plain_key :: "environment \<Rightarrow> keycode \<Rightarrow> bool" where
  "plain_key e k \<longleftrightarrow>
     k \<notin> set (control_keycodes e) \<and> IS_BASIC_KEYCODE e k \<and>
     process_key_cancellation_user e k \<lparr>pressed = True\<rparr> \<and>
     process_key_cancellation_user e k \<lparr>pressed = False\<rparr>"

datatype buffer_op = Add keycode | Del keycode

fun apply_op :: "engine \<Rightarrow> buffer_op \<Rightarrow> engine" where
  "apply_op s (Add k) = add_key_buffer s k"
| "apply_op s (Del k) = del_key_buffer s k"

definition apply_ops :: "engine \<Rightarrow> buffer_op list \<Rightarrow> engine" where
  "apply_ops s ops = foldl apply_op s ops"

section \<open>Host report\<close>





section \<open>Mouse turbo click\<close>

text \<open>
  Embedding of \<^verbatim>\<open>features/mouse_turbo_click.c\<close>. The deferred execution API is not
  in the source: the token type is \<^verbatim>\<open>uint8_t\<close>, and the invalid token, the clicked
  key \<^verbatim>\<open>MOUSE_TURBO_CLICK_KEY\<close> and the token \<^verbatim>\<open>defer_exec\<close> hands out are
  parameters. The period is the file's default.
\<close>

type_synonym deferred_token = "8 word"

record turbo_environment =
  MOUSE_TURBO_CLICK_KEY :: keycode
  INVALID_DEFERRED_TOKEN :: deferred_token
  defer_exec_token :: deferred_token

record turbo =
  turbo_enabled :: bool
  click_token :: deferred_token
  click_registered :: bool

datatype turbo_action =
    Register_code16 keycode
  | Unregister_code16 keycode
  | Defer_exec "32 word"
  | Cancel_deferred_exec deferred_token

definition MOUSE_TURBO_CLICK_PERIOD :: "32 word" where
  "MOUSE_TURBO_CLICK_PERIOD = 10"

definition initial_turbo :: "turbo_environment \<Rightarrow> turbo" where
  "initial_turbo env =
     \<lparr>turbo_enabled = False, click_token = INVALID_DEFERRED_TOKEN env, click_registered = False\<rparr>"

definition is_turbo_click_active :: "turbo \<Rightarrow> bool" where
  "is_turbo_click_active s = turbo_enabled s"

definition turbo_click_callback ::
  "turbo_environment \<Rightarrow> turbo \<Rightarrow> 32 word \<times> turbo_action list \<times> turbo" where
  "turbo_click_callback env s =
     (if click_registered s
      then (MOUSE_TURBO_CLICK_PERIOD div 2, [Unregister_code16 (MOUSE_TURBO_CLICK_KEY env)],
            s\<lparr>click_registered := False\<rparr>)
      else (MOUSE_TURBO_CLICK_PERIOD div 2, [Register_code16 (MOUSE_TURBO_CLICK_KEY env)],
            s\<lparr>click_registered := True\<rparr>))"

definition turbo_click_start :: "turbo_environment \<Rightarrow> turbo \<Rightarrow> turbo_action list \<times> turbo" where
  "turbo_click_start env s =
     (if click_token s = INVALID_DEFERRED_TOKEN env then
        (case turbo_click_callback env s of
           (next_delay_ms, acts, s1) \<Rightarrow>
             (acts @ [Defer_exec next_delay_ms], s1\<lparr>click_token := defer_exec_token env\<rparr>))
      else ([], s))"

definition turbo_click_stop :: "turbo_environment \<Rightarrow> turbo \<Rightarrow> turbo_action list \<times> turbo" where
  "turbo_click_stop env s =
     (if click_token s \<noteq> INVALID_DEFERRED_TOKEN env then
        (let s1 = s\<lparr>click_token := INVALID_DEFERRED_TOKEN env\<rparr>
         in if click_registered s1
            then ([Cancel_deferred_exec (click_token s),
                   Unregister_code16 (MOUSE_TURBO_CLICK_KEY env)],
                  s1\<lparr>click_registered := False\<rparr>)
            else ([Cancel_deferred_exec (click_token s)], s1))
      else ([], s))"

definition process_mouse_turbo_click ::
  "turbo_environment \<Rightarrow> keycode \<Rightarrow> keyrecord_t \<Rightarrow> keycode \<Rightarrow> turbo \<Rightarrow>
     bool \<times> turbo_action list \<times> turbo" where
  "process_mouse_turbo_click env keycode record turbo_click_keycode s =
     (if keycode = turbo_click_keycode then
        (if pressed record then
           (let s1 = s\<lparr>turbo_enabled := \<not> turbo_enabled s\<rparr>
            in case (if turbo_enabled s1 then turbo_click_start env s1
                     else turbo_click_stop env s1) of
                 (acts, s2) \<Rightarrow> (False, acts, s2))
         else (False, [], s))
      else (True, [], s))"

section \<open>Sample configuration\<close>

text \<open>
  A concrete environment to run the handler in: \<^verbatim>\<open>IS_BASIC_KEYCODE\<close> as the range
  \<^verbatim>\<open>KC_A .. KC_EXSEL\<close> (0x04 .. 0xA4), the default hook, and six control keycodes
  outside that range.
\<close>

definition sample_env :: "key_cancellation_t list \<Rightarrow> environment" where
  "sample_env t =
     \<lparr>key_cancellation_table = t,
      IS_BASIC_KEYCODE = (\<lambda>k. 4 \<le> k \<and> k \<le> 164),
      process_key_cancellation_user = (\<lambda>k r. True),
      QK_KEY_CANCELLATION_ON = 31856,
      QK_KEY_CANCELLATION_OFF = 31857,
      QK_KEY_CANCELLATION_TOGGLE = 31858,
      QK_KEY_CANCELLATION_RECOVERY_ON = 31859,
      QK_KEY_CANCELLATION_RECOVERY_OFF = 31860,
      QK_KEY_CANCELLATION_RECOVERY_TOGGLE = 31861\<rparr>"

definition pair :: "keycode \<Rightarrow> keycode \<Rightarrow> key_cancellation_t" where
  "pair a b = \<lparr>press = a, unpress = b\<rparr>"

definition config :: "bool \<Rightarrow> bool \<Rightarrow> keymap_config_t" where
  "config c r = \<lparr>key_cancellation_enable = c, key_cancellation_recovery_enable = r\<rparr>"

definition sample_turbo_env :: turbo_environment where
  "sample_turbo_env =
     \<lparr>MOUSE_TURBO_CLICK_KEY = 209, INVALID_DEFERRED_TOKEN = 0, defer_exec_token = 1\<rparr>"

section \<open>The loops, characterised\<close>

declare is_key_in_buffer_from.simps [simp del] shift_buffer_from.simps [simp del]
  del_key_buffer_from.simps [simp del] del_key_buffer_temp_from.simps [simp del]
  compare_buffers_from.simps [simp del]

lemma is_key_in_buffer_from_iff:
  "is_key_in_buffer_from buf n k i \<longleftrightarrow> (\<exists>j. i \<le> j \<and> j < n \<and> buf ! j = k)"
proof (induction buf n k i rule: is_key_in_buffer_from.induct)
  case (1 buf n k i)
  show ?case
  proof (cases "i < n")
    case False
    then show ?thesis by (subst is_key_in_buffer_from.simps) auto
  next
    case True
    show ?thesis
    proof (cases "buf ! i = k")
      case True
      with \<open>i < n\<close> show ?thesis by (subst is_key_in_buffer_from.simps) auto
    next
      case False
      with \<open>i < n\<close> 1 have "is_key_in_buffer_from buf n k i \<longleftrightarrow> (\<exists>j. Suc i \<le> j \<and> j < n \<and> buf ! j = k)"
        by (subst is_key_in_buffer_from.simps) simp
      also have "\<dots> \<longleftrightarrow> (\<exists>j. i \<le> j \<and> j < n \<and> buf ! j = k)"
      proof
        assume "\<exists>j. Suc i \<le> j \<and> j < n \<and> buf ! j = k"
        then obtain j where "Suc i \<le> j" "j < n" "buf ! j = k" by blast
        then have "i \<le> j \<and> j < n \<and> buf ! j = k" by simp
        then show "\<exists>j. i \<le> j \<and> j < n \<and> buf ! j = k" ..
      next
        assume "\<exists>j. i \<le> j \<and> j < n \<and> buf ! j = k"
        then obtain j where j: "i \<le> j" "j < n" "buf ! j = k" by blast
        with False have "j \<noteq> i" by auto
        with j have "Suc i \<le> j \<and> j < n \<and> buf ! j = k" by simp
        then show "\<exists>j. Suc i \<le> j \<and> j < n \<and> buf ! j = k" ..
      qed
      finally show ?thesis .
    qed
  qed
qed


lemma in_buffer_iff:
  "buffer_keyreport_count s \<le> length (buffer_keyreports s) \<Longrightarrow>
   key_cancellation_is_key_in_buffer s k \<longleftrightarrow> k \<in> set (hold_buffer s)"
  by (auto simp: key_cancellation_is_key_in_buffer_def is_key_in_buffer_from_iff hold_buffer_def in_set_conv_nth)

lemma shift_buffer_from_length: "length (shift_buffer_from buf n j) = length buf"
proof (induction buf n j rule: shift_buffer_from.induct)
  case (1 buf n j)
  show ?case
  proof (cases "j < n - 1")
    case True
    with 1 show ?thesis by (subst shift_buffer_from.simps) simp
  next
    case False
    then show ?thesis by (subst shift_buffer_from.simps) simp
  qed
qed

lemma shift_buffer_from_nth:
  "n \<le> length buf \<Longrightarrow> m < length buf \<Longrightarrow>
   shift_buffer_from buf n j ! m = (if j \<le> m \<and> m < n - 1 then buf ! (m + 1) else buf ! m)"
proof (induction buf n j arbitrary: m rule: shift_buffer_from.induct)
  case (1 buf n j)
  show ?case
  proof (cases "j < n - 1")
    case False
    then show ?thesis by (subst shift_buffer_from.simps) auto
  next
    case True
    let ?b = "buf[j := buf ! (j + 1)]"
    have step: "shift_buffer_from buf n j = shift_buffer_from ?b n (Suc j)"
      using True by (subst shift_buffer_from.simps) simp
    have len: "n \<le> length ?b" "m < length ?b" using 1(2,3) by simp_all
    have ih: "shift_buffer_from ?b n (Suc j) ! m =
                (if Suc j \<le> m \<and> m < n - 1 then ?b ! (m + 1) else ?b ! m)"
      by (rule 1(1) [OF True len])
    show ?thesis
    proof (cases "m = j")
      case True
      with \<open>j < n - 1\<close> 1(2,3) ih show ?thesis by (simp add: step)
    next
      case False
      with 1(2,3) ih show ?thesis by (auto simp add: step)
    qed
  qed
qed


lemma shift_buffer_from_take:
  assumes "n \<le> length buf" "i < n"
  shows "take (n - 1) (shift_buffer_from buf n i) = take i buf @ drop (Suc i) (take n buf)"
proof (rule nth_equalityI)
  show "length (take (n - 1) (shift_buffer_from buf n i)) =
        length (take i buf @ drop (Suc i) (take n buf))"
    using assms by (simp add: shift_buffer_from_length)
next
  fix m assume "m < length (take (n - 1) (shift_buffer_from buf n i))"
  with assms have m: "m < n - 1" by (simp add: shift_buffer_from_length)
  with assms have "m < length buf" by simp
  with assms m show "take (n - 1) (shift_buffer_from buf n i) ! m =
                     (take i buf @ drop (Suc i) (take n buf)) ! m"
    by (auto simp: shift_buffer_from_nth nth_append)
qed

lemma del_key_buffer_from_frame:
  "buffer_keyreports_temp (del_key_buffer_from s k i) = buffer_keyreports_temp s \<and>
   keymap_config (del_key_buffer_from s k i) = keymap_config s \<and>
   length (buffer_keyreports (del_key_buffer_from s k i)) = length (buffer_keyreports s) \<and>
   buffer_keyreport_count (del_key_buffer_from s k i) \<le> buffer_keyreport_count s"
proof (induction s k i rule: del_key_buffer_from.induct)
  case (1 s k i)
  show ?case
  proof (cases "i < buffer_keyreport_count s")
    case False
    then show ?thesis by (subst (1 2 3 4) del_key_buffer_from.simps) simp
  next
    case lt: True
    show ?thesis
    proof (cases "buffer_keyreports s ! i = k")
      case True
      with lt show ?thesis
        by (subst (1 2 3 4) del_key_buffer_from.simps) (simp add: shift_buffer_from_length)
    next
      case False
      with lt 1 show ?thesis by (subst (1 2 3 4) del_key_buffer_from.simps) simp
    qed
  qed
qed

lemma del_key_buffer_from_hold:
  "buffer_keyreport_count s \<le> length (buffer_keyreports s) \<Longrightarrow>
   k \<notin> set (take i (hold_buffer s)) \<Longrightarrow>
   hold_buffer (del_key_buffer_from s k i) = remove1 k (hold_buffer s)"
proof (induction s k i rule: del_key_buffer_from.induct)
  case (1 s k i)
  let ?n = "buffer_keyreport_count s" and ?b = "buffer_keyreports s"
  show ?case
  proof (cases "i < ?n")
    case False
    then have "take i (hold_buffer s) = hold_buffer s" by (simp add: hold_buffer_def)
    with 1(3) have "k \<notin> set (hold_buffer s)" by simp
    then have "remove1 k (hold_buffer s) = hold_buffer s" by (rule remove1_idem)
    with False show ?thesis by (subst del_key_buffer_from.simps) simp
  next
    case lt: True
    with 1(2) have il: "i < length ?b" by simp
    have "i < length (take ?n ?b)" using lt 1(2) by simp
    then have "take ?n ?b = take i (take ?n ?b) @ take ?n ?b ! i # drop (Suc i) (take ?n ?b)"
      by (rule id_take_nth_drop)
    then have hb: "hold_buffer s = take i ?b @ ?b ! i # drop (Suc i) (take ?n ?b)"
      using lt by (simp add: hold_buffer_def min.absorb1)
    have ti: "take i (hold_buffer s) = take i ?b"
      using lt by (simp add: hold_buffer_def min.absorb1)
    show ?thesis
    proof (cases "?b ! i = k")
      case True
      have "hold_buffer (del_key_buffer_from s k i) = take (?n - 1) (shift_buffer_from ?b ?n i)"
        using lt True by (subst del_key_buffer_from.simps) (simp add: hold_buffer_def)
      also have "\<dots> = take i ?b @ drop (Suc i) (take ?n ?b)"
        using 1(2) lt by (rule shift_buffer_from_take)
      also have "\<dots> = remove1 k (hold_buffer s)"
        using 1(3) True by (subst hb) (simp add: ti remove1_append)
      finally show ?thesis .
    next
      case False
      have "take (Suc i) (hold_buffer s) = take i ?b @ [?b ! i]"
        using lt il by (simp add: hold_buffer_def take_Suc_conv_app_nth min.absorb1)
      with 1(3) False have "k \<notin> set (take (Suc i) (hold_buffer s))" by (auto simp: ti)
      with 1 lt False show ?thesis by (subst del_key_buffer_from.simps) simp
    qed
  qed
qed

lemma del_key_buffer_hold:
  "buffer_keyreport_count s \<le> length (buffer_keyreports s) \<Longrightarrow>
   hold_buffer (del_key_buffer s k) = remove1 k (hold_buffer s)"
  by (simp add: del_key_buffer_def del_key_buffer_from_hold)

lemma add_key_buffer_hold:
  "buffer_keyreport_count s \<le> length (buffer_keyreports s) \<Longrightarrow>
   length (buffer_keyreports s) = KEYREPORT_BUFFER_SIZE \<Longrightarrow>
   hold_buffer (add_key_buffer s k) =
     (if k \<in> set (hold_buffer s) \<or> buffer_keyreport_count s \<ge> KEYREPORT_BUFFER_SIZE
      then hold_buffer s else hold_buffer s @ [k])"
  by (simp add: add_key_buffer_def in_buffer_iff)
     (simp add: hold_buffer_def take_Suc_conv_app_nth)

lemma hold_buffer_length:
  "buffer_keyreport_count s \<le> length (buffer_keyreports s) \<Longrightarrow>
   length (hold_buffer s) = buffer_keyreport_count s"
  by (simp add: hold_buffer_def)

section \<open>The hold buffer as an ordered set\<close>

lemma initial_engine_ok: "buffer_ok (initial_engine cfg)"
  by (simp add: buffer_ok_def engine_wf_def initial_engine_def hold_buffer_def)

lemma add_key_buffer_ok: "buffer_ok s \<Longrightarrow> buffer_ok (add_key_buffer s k)"
proof -
  assume ok: "buffer_ok s"
  then have wf: "buffer_keyreport_count s \<le> length (buffer_keyreports s)"
    "length (buffer_keyreports s) = KEYREPORT_BUFFER_SIZE"
    by (simp_all add: buffer_ok_def engine_wf_def)
  have "distinct (hold_buffer (add_key_buffer s k))"
    using ok by (simp add: add_key_buffer_hold [OF wf] buffer_ok_def)
  moreover have "engine_wf (add_key_buffer s k)"
    using ok by (simp add: add_key_buffer_def buffer_ok_def engine_wf_def)
  ultimately show ?thesis by (simp add: buffer_ok_def)
qed

lemma del_key_buffer_ok: "buffer_ok s \<Longrightarrow> buffer_ok (del_key_buffer s k)"
proof -
  assume ok: "buffer_ok s"
  then have wf: "buffer_keyreport_count s \<le> length (buffer_keyreports s)"
    by (simp add: buffer_ok_def engine_wf_def)
  have "distinct (hold_buffer (del_key_buffer s k))"
    using ok by (simp add: del_key_buffer_hold [OF wf] buffer_ok_def)
  moreover have "engine_wf (del_key_buffer s k)"
    using ok del_key_buffer_from_frame [of s k 0]
    by (simp add: del_key_buffer_def buffer_ok_def engine_wf_def)
  ultimately show ?thesis by (simp add: buffer_ok_def)
qed

lemma apply_ops_ok: "buffer_ok s \<Longrightarrow> buffer_ok (apply_ops s ops)"
  unfolding apply_ops_def
proof (induction ops arbitrary: s)
  case Nil
  then show ?case by simp
next
  case (Cons x xs)
  then show ?case by (cases x) (simp_all add: add_key_buffer_ok del_key_buffer_ok)
qed

text \<open>
  C6. After any sequence of \<^verbatim>\<open>add_key_buffer\<close> and \<^verbatim>\<open>del_key_buffer\<close> calls
  on the empty buffer, no keycode is in the tracked slots twice, the count is the number
  of tracked slots and is at most 10, adding a keycode that is already there changes
  nothing, and adding to a full buffer changes nothing (neither a slot nor the count).
\<close>

theorem hold_buffer_invariant:
  fixes cfg ops k k'
  defines "s \<equiv> apply_ops (initial_engine cfg) ops"
  shows "distinct (hold_buffer s) \<and>
         length (hold_buffer s) = buffer_keyreport_count s \<and>
         buffer_keyreport_count s \<le> 10 \<and>
         (key_cancellation_is_key_in_buffer s k \<longrightarrow> add_key_buffer s k = s) \<and>
         (10 \<le> buffer_keyreport_count s \<longrightarrow> add_key_buffer s k' = s)"
proof -
  have "buffer_ok s" unfolding s_def by (rule apply_ops_ok [OF initial_engine_ok])
  then show ?thesis
    by (simp add: buffer_ok_def engine_wf_def KEYREPORT_BUFFER_SIZE_def hold_buffer_length
        add_key_buffer_def)
qed

theorem hold_buffer_invariant_witness:
  "key_cancellation_is_key_in_buffer
     (apply_ops (initial_engine (config True True))
        [Add 4, Add 5, Add 6, Add 7, Add 4, Add 8, Add 9, Add 10, Add 11, Add 12, Add 13,
         Del 6, Add 14, Add 15]) 4 \<and>
   buffer_keyreport_count
     (apply_ops (initial_engine (config True True))
        [Add 4, Add 5, Add 6, Add 7, Add 4, Add 8, Add 9, Add 10, Add 11, Add 12, Add 13,
         Del 6, Add 14, Add 15]) = 10 \<and>
   hold_buffer
     (apply_ops (initial_engine (config True True))
        [Add 4, Add 5, Add 6, Add 7, Add 4, Add 8, Add 9, Add 10, Add 11, Add 12, Add 13,
         Del 6, Add 14, Add 15]) = [4, 5, 7, 8, 9, 10, 11, 12, 13, 14] \<and>
   add_key_buffer
     (apply_ops (initial_engine (config True True))
        [Add 4, Add 5, Add 6, Add 7, Add 4, Add 8, Add 9, Add 10, Add 11, Add 12, Add 13,
         Del 6, Add 14, Add 15]) 4 =
     apply_ops (initial_engine (config True True))
        [Add 4, Add 5, Add 6, Add 7, Add 4, Add 8, Add 9, Add 10, Add 11, Add 12, Add 13,
         Del 6, Add 14, Add 15] \<and>
   add_key_buffer
     (apply_ops (initial_engine (config True True))
        [Add 4, Add 5, Add 6, Add 7, Add 4, Add 8, Add 9, Add 10, Add 11, Add 12, Add 13,
         Del 6, Add 14, Add 15]) 16 =
     apply_ops (initial_engine (config True True))
        [Add 4, Add 5, Add 6, Add 7, Add 4, Add 8, Add 9, Add 10, Add 11, Add 12, Add 13,
         Del 6, Add 14, Add 15]"
  (is "?A \<and> ?B \<and> ?C \<and> ?D \<and> ?E")
proof -
  have a: ?A by code_simp
  have b: ?B by code_simp
  have c: ?C by code_simp
  note t = hold_buffer_invariant [of "config True True"
      "[Add 4, Add 5, Add 6, Add 7, Add 4, Add 8, Add 9, Add 10, Add 11, Add 12, Add 13,
         Del 6, Add 14, Add 15]" 4 16]
  from t a have d: ?D by blast
  from b have "10 \<le> buffer_keyreport_count
     (apply_ops (initial_engine (config True True))
        [Add 4, Add 5, Add 6, Add 7, Add 4, Add 8, Add 9, Add 10, Add 11, Add 12, Add 13,
         Del 6, Add 14, Add 15])" by simp
  with t have e: ?E by blast
  from a b c d e show ?thesis by blast
qed

section \<open>The snapshot scan\<close>

lemma del_key_buffer_temp_from_length:
  "length (del_key_buffer_temp_from tmp k e i) = length tmp"
proof (induction tmp k e i rule: del_key_buffer_temp_from.induct)
  case (1 tmp k e i)
  show ?case
  proof (cases "i < e \<and> tmp ! i \<noteq> k")
    case True
    with 1 show ?thesis by (subst del_key_buffer_temp_from.simps) simp
  next
    case False
    then show ?thesis by (subst del_key_buffer_temp_from.simps) auto
  qed
qed

text \<open>Slot by slot: only the first hit in \<open>[i, e)\<close> changes, and it becomes 0.\<close>

lemma del_key_buffer_temp_from_nth:
  "m < length tmp \<Longrightarrow>
   del_key_buffer_temp_from tmp k e i ! m =
     (if i \<le> m \<and> m < e \<and> tmp ! m = k \<and> (\<forall>m'. i \<le> m' \<and> m' < m \<longrightarrow> tmp ! m' \<noteq> k)
      then 0 else tmp ! m)"
proof (induction tmp k e i rule: del_key_buffer_temp_from.induct)
  case (1 tmp k e i)
  show ?case
  proof (cases "i < e")
    case False
    then show ?thesis by (subst del_key_buffer_temp_from.simps) auto
  next
    case lt: True
    show ?thesis
    proof (cases "tmp ! i = k")
      case True
      have r: "del_key_buffer_temp_from tmp k e i = tmp[i := 0]"
        using lt True by (subst del_key_buffer_temp_from.simps) simp
      show ?thesis
      proof (cases "m = i")
        case True
        with 1(2) lt \<open>tmp ! i = k\<close> show ?thesis by (auto simp: r)
      next
        case False
        have "\<not> (i \<le> m \<and> (\<forall>m'. i \<le> m' \<and> m' < m \<longrightarrow> tmp ! m' \<noteq> k))"
        proof
          assume a: "i \<le> m \<and> (\<forall>m'. i \<le> m' \<and> m' < m \<longrightarrow> tmp ! m' \<noteq> k)"
          with False have "i < m" by simp
          with a have "tmp ! i \<noteq> k" by blast
          with True show False by simp
        qed
        with False show ?thesis by (auto simp: r)
      qed
    next
      case False
      have r: "del_key_buffer_temp_from tmp k e i = del_key_buffer_temp_from tmp k e (Suc i)"
        using lt False by (subst del_key_buffer_temp_from.simps) simp
      have ih: "del_key_buffer_temp_from tmp k e (Suc i) ! m =
          (if Suc i \<le> m \<and> m < e \<and> tmp ! m = k \<and> (\<forall>m'. Suc i \<le> m' \<and> m' < m \<longrightarrow> tmp ! m' \<noteq> k)
           then 0 else tmp ! m)"
        by (rule 1(1) [OF lt False 1(2)])
      have eq1: "(i \<le> m \<and> tmp ! m = k) \<longleftrightarrow> (Suc i \<le> m \<and> tmp ! m = k)"
        using False by (cases "m = i") auto
      have eq2: "(\<forall>m'. i \<le> m' \<and> m' < m \<longrightarrow> tmp ! m' \<noteq> k) \<longleftrightarrow>
                 (\<forall>m'. Suc i \<le> m' \<and> m' < m \<longrightarrow> tmp ! m' \<noteq> k)"
      proof
        assume "\<forall>m'. i \<le> m' \<and> m' < m \<longrightarrow> tmp ! m' \<noteq> k"
        then show "\<forall>m'. Suc i \<le> m' \<and> m' < m \<longrightarrow> tmp ! m' \<noteq> k" by simp
      next
        assume a: "\<forall>m'. Suc i \<le> m' \<and> m' < m \<longrightarrow> tmp ! m' \<noteq> k"
        show "\<forall>m'. i \<le> m' \<and> m' < m \<longrightarrow> tmp ! m' \<noteq> k"
        proof (intro allI impI)
          fix m' assume b: "i \<le> m' \<and> m' < m"
          show "tmp ! m' \<noteq> k"
          proof (cases "m' = i")
            case True
            with False show ?thesis by simp
          next
            case False
            with b have "Suc i \<le> m' \<and> m' < m" by simp
            with a show ?thesis by blast
          qed
        qed
      qed
      show ?thesis unfolding r ih using eq1 eq2 by auto
    qed
  qed
qed

lemma scan_pair_frame:
  "buffer_keyreports (scan_pair p j s) = buffer_keyreports s \<and>
   buffer_keyreport_count (scan_pair p j s) = buffer_keyreport_count s \<and>
   keymap_config (scan_pair p j s) = keymap_config s \<and>
   length (buffer_keyreports_temp (scan_pair p j s)) = length (buffer_keyreports_temp s)"
  by (simp add: scan_pair_def del_key_buffer_temp_def del_key_buffer_temp_from_length)

lemma scan_pair_in_buffer:
  "key_cancellation_is_key_in_buffer (scan_pair p j s) k = key_cancellation_is_key_in_buffer s k"
  by (simp add: key_cancellation_is_key_in_buffer_def scan_pair_frame)

lemma scan_pair_nth:
  "m < length (buffer_keyreports_temp s) \<Longrightarrow>
   buffer_keyreports_temp (scan_pair p j s) ! m =
     (if press p = buffer_keyreports_temp s ! j \<and>
         key_cancellation_is_key_in_buffer s (unpress p) \<and>
         m < j \<and> buffer_keyreports_temp s ! m = unpress p \<and>
         (\<forall>m' < m. buffer_keyreports_temp s ! m' \<noteq> unpress p)
      then 0 else buffer_keyreports_temp s ! m)"
  by (auto simp: scan_pair_def del_key_buffer_temp_def del_key_buffer_temp_from_nth)

lemma scan_pairs_frame:
  "buffer_keyreports (scan_pairs ps j s) = buffer_keyreports s \<and>
   buffer_keyreport_count (scan_pairs ps j s) = buffer_keyreport_count s \<and>
   keymap_config (scan_pairs ps j s) = keymap_config s \<and>
   length (buffer_keyreports_temp (scan_pairs ps j s)) = length (buffer_keyreports_temp s)"
  by (induction ps arbitrary: s) (simp_all add: scan_pair_frame)

lemma scan_pairs_in_buffer:
  "key_cancellation_is_key_in_buffer (scan_pairs ps j s) k = key_cancellation_is_key_in_buffer s k"
  by (simp add: key_cancellation_is_key_in_buffer_def scan_pairs_frame)


lemma scan_pairs_nth_cases:
  "m < length (buffer_keyreports_temp s) \<Longrightarrow>
   buffer_keyreports_temp (scan_pairs ps j s) ! m = buffer_keyreports_temp s ! m \<or>
   buffer_keyreports_temp (scan_pairs ps j s) ! m = 0"
proof (induction ps arbitrary: s)
  case Nil
  then show ?case by simp
next
  case (Cons p ps)
  have "m < length (buffer_keyreports_temp (scan_pair p j s))"
    using Cons.prems by (simp add: scan_pair_frame)
  from Cons.IH [OF this] scan_pair_nth [OF Cons.prems, of p j]
  show ?case by (auto split: if_splits)
qed

lemma scan_pairs_zero:
  "m < length (buffer_keyreports_temp s) \<Longrightarrow> buffer_keyreports_temp s ! m = 0 \<Longrightarrow>
   buffer_keyreports_temp (scan_pairs ps j s) ! m = 0"
  using scan_pairs_nth_cases [of m s ps j] by auto

lemma scan_pairs_0: "scan_pairs ps 0 s = s"
proof (induction ps)
  case Nil
  show ?case by simp
next
  case (Cons p ps)
  have "del_key_buffer_temp_from (buffer_keyreports_temp s) (unpress p) 0 0 = buffer_keyreports_temp s"
    by (subst del_key_buffer_temp_from.simps) simp
  then have "scan_pair p 0 s = s" by (simp add: scan_pair_def del_key_buffer_temp_def)
  with Cons show ?case by simp
qed

lemma scan_snapshot_frame:
  "buffer_keyreports (scan_snapshot ps n s) = buffer_keyreports s \<and>
   buffer_keyreport_count (scan_snapshot ps n s) = buffer_keyreport_count s \<and>
   keymap_config (scan_snapshot ps n s) = keymap_config s \<and>
   length (buffer_keyreports_temp (scan_snapshot ps n s)) = length (buffer_keyreports_temp s)"
  by (induction n arbitrary: s) (simp_all add: scan_pairs_frame)


section \<open>The handler: dispatch and admission\<close>

lemma control_switch_None_iff:
  "control_switch e keycode s = None \<longleftrightarrow> keycode \<notin> set (control_keycodes e)"
  by (auto simp: control_switch_def control_keycodes_def)

lemma control_switch_Some:
  "control_switch e keycode s = Some (acts, s') \<Longrightarrow>
   buffer_keyreports s' = buffer_keyreports s \<and>
   buffer_keyreport_count s' = buffer_keyreport_count s \<and>
   buffer_keyreports_temp s' = buffer_keyreports_temp s \<and>
   acts = [Eeconfig_update_keymap (keymap_config s')]"
  by (auto simp: control_switch_def key_cancellation_enable_op_def key_cancellation_disable_def
      key_cancellation_toggle_def key_cancellation_recovery_enable_op_def
      key_cancellation_recovery_disable_def key_cancellation_recovery_toggle_def Let_def
      split: if_splits)

lemma press_path_filter:
  "press_path ps keycode = map (\<lambda>p. Del_key (unpress p)) (filter (\<lambda>p. press p = keycode) ps)"
  by (induction ps) auto

lemma in_press_list_iff:
  "key_cancellation_is_key_in_press_list ps k \<longleftrightarrow> k \<in> press ` set ps"
  by (induction ps) auto

lemma press_path_not_listed:
  "\<not> key_cancellation_is_key_in_press_list ps keycode \<Longrightarrow> press_path ps keycode = []"
  by (induction ps) (auto split: if_splits)

lemma add_key_buffer_count_pos: "buffer_keyreport_count (add_key_buffer s k) \<noteq> 0"
proof (cases "key_cancellation_is_key_in_buffer s k")
  case True
  then obtain j where "j < buffer_keyreport_count s"
    by (auto simp: key_cancellation_is_key_in_buffer_def is_key_in_buffer_from_iff)
  with True show ?thesis by (simp add: add_key_buffer_def)
next
  case False
  then show ?thesis by (simp add: add_key_buffer_def KEYREPORT_BUFFER_SIZE_def)
qed

text \<open>
  C8. With the cancellation flag off, an event of a keycode that is none of the six
  control keycodes returns true, makes no call and leaves the whole state as it is.
\<close>

theorem disabled_is_pass_through:
  assumes "keycode \<notin> set (control_keycodes e)"
    and "\<not> key_cancellation_enable (keymap_config s)"
  shows "process_key_cancellation e keycode record s = (True, [], s)"
proof -
  from assms(1) have "control_switch e keycode s = None"
    by (simp add: control_switch_None_iff)
  with assms(2) show ?thesis by (simp add: process_key_cancellation_def)
qed

text \<open>
  C9. With the recovery flag off, a release event returns true, makes no call and leaves
  the whole state as it is, whatever the cancellation flag and the buffer hold: entries
  left in the buffer stay there. (This holds for every keycode, so for those that are
  not control keycodes.)
\<close>

theorem release_without_recovery_is_inert:
  assumes "\<not> pressed record"
    and "\<not> key_cancellation_recovery_enable (keymap_config s)"
  shows "process_key_cancellation e keycode record s = (True, [], s)"
  using assms by (simp add: process_key_cancellation_def)

lemma admitted_press_result:
  assumes "pressed record"
    and "keycode \<notin> set (control_keycodes e)"
    and "key_cancellation_enable (keymap_config s)"
    and "IS_BASIC_KEYCODE e keycode"
    and "process_key_cancellation_user e keycode record"
  shows "fst (process_key_cancellation e keycode record s) = True \<and>
         fst (snd (process_key_cancellation e keycode record s)) =
           map (\<lambda>p. Del_key (unpress p))
             (filter (\<lambda>p. press p = keycode) (key_cancellation_table e))"
proof -
  from assms(2) have cs: "control_switch e keycode s = None"
    by (simp add: control_switch_None_iff)
  show ?thesis
  proof (cases "key_cancellation_is_key_in_press_list (key_cancellation_table e) keycode")
    case True
    with assms cs show ?thesis
      by (simp add: process_key_cancellation_def Let_def add_key_buffer_count_pos
          press_path_filter)
  next
    case False
    with assms cs press_path_not_listed [OF False] show ?thesis
      by (auto simp: process_key_cancellation_def Let_def press_path_filter)
  qed
qed

text \<open>
  C5. A press event of a keycode that is no control keycode, with cancellation enabled,
  the keycode basic and the hook agreeing, makes exactly the calls
  \<^verbatim>\<open>del_key(unpress)\<close> for the pairs whose press is the keycode, one for each such
  pair and in table order, whatever the state of the buffer; and it returns true.
\<close>

theorem press_path_releases_each_unpress:
  assumes "pressed record"
    and "keycode \<notin> set (control_keycodes e)"
    and "key_cancellation_enable (keymap_config s)"
    and "IS_BASIC_KEYCODE e keycode"
    and "process_key_cancellation_user e keycode record"
  shows "fst (process_key_cancellation e keycode record s) = True \<and>
         fst (snd (process_key_cancellation e keycode record s)) =
           map (\<lambda>p. Del_key (unpress p))
             (filter (\<lambda>p. press p = keycode) (key_cancellation_table e))"
  using assms by (rule admitted_press_result)

theorem disabled_is_pass_through_witness:
  "7 \<notin> set (control_keycodes (sample_env [pair 4 7])) \<and>
   \<not> key_cancellation_enable (keymap_config
       (run_events (sample_env [pair 4 7]) [(4, True), (31857, True)]
          (initial_engine (config True True)))) \<and>
   process_key_cancellation (sample_env [pair 4 7]) 7 \<lparr>pressed = True\<rparr>
     (run_events (sample_env [pair 4 7]) [(4, True), (31857, True)]
        (initial_engine (config True True))) =
   (True, [],
     run_events (sample_env [pair 4 7]) [(4, True), (31857, True)]
       (initial_engine (config True True)))"
proof -
  have h1: "7 \<notin> set (control_keycodes (sample_env [pair 4 7]))"
    by (simp add: control_keycodes_def sample_env_def)
  have h2: "\<not> key_cancellation_enable (keymap_config
       (run_events (sample_env [pair 4 7]) [(4, True), (31857, True)]
          (initial_engine (config True True))))"
    by code_simp
  from h1 h2 disabled_is_pass_through [OF h1 h2] show ?thesis by blast
qed

theorem release_without_recovery_is_inert_witness:
  "\<not> pressed \<lparr>pressed = False\<rparr> \<and>
   \<not> key_cancellation_recovery_enable (keymap_config
       (run_events (sample_env [pair 4 7, pair 7 4]) [(4, True), (7, True), (31860, True)]
          (initial_engine (config True True)))) \<and>
   hold_buffer
     (run_events (sample_env [pair 4 7, pair 7 4]) [(4, True), (7, True), (31860, True)]
        (initial_engine (config True True))) = [4, 7] \<and>
   process_key_cancellation (sample_env [pair 4 7, pair 7 4]) 4 \<lparr>pressed = False\<rparr>
     (run_events (sample_env [pair 4 7, pair 7 4]) [(4, True), (7, True), (31860, True)]
        (initial_engine (config True True))) =
   (True, [],
     run_events (sample_env [pair 4 7, pair 7 4]) [(4, True), (7, True), (31860, True)]
       (initial_engine (config True True)))"
proof -
  have h1: "\<not> pressed \<lparr>pressed = False\<rparr>" by simp
  have h2: "\<not> key_cancellation_recovery_enable (keymap_config
       (run_events (sample_env [pair 4 7, pair 7 4]) [(4, True), (7, True), (31860, True)]
          (initial_engine (config True True))))"
    by code_simp
  have h3: "hold_buffer
     (run_events (sample_env [pair 4 7, pair 7 4]) [(4, True), (7, True), (31860, True)]
        (initial_engine (config True True))) = [4, 7]"
    by code_simp
  from h1 h2 h3 release_without_recovery_is_inert [OF h1 h2] show ?thesis by blast
qed

theorem press_path_releases_each_unpress_witness:
  "pressed \<lparr>pressed = True\<rparr> \<and>
   4 \<notin> set (control_keycodes (sample_env [pair 4 7, pair 6 7, pair 4 9, pair 4 7])) \<and>
   key_cancellation_enable (keymap_config (initial_engine (config True False))) \<and>
   IS_BASIC_KEYCODE (sample_env [pair 4 7, pair 6 7, pair 4 9, pair 4 7]) 4 \<and>
   process_key_cancellation_user (sample_env [pair 4 7, pair 6 7, pair 4 9, pair 4 7]) 4
     \<lparr>pressed = True\<rparr> \<and>
   fst (process_key_cancellation (sample_env [pair 4 7, pair 6 7, pair 4 9, pair 4 7]) 4
     \<lparr>pressed = True\<rparr> (initial_engine (config True False))) = True \<and>
   fst (snd (process_key_cancellation (sample_env [pair 4 7, pair 6 7, pair 4 9, pair 4 7]) 4
     \<lparr>pressed = True\<rparr> (initial_engine (config True False)))) =
     [Del_key 7, Del_key 9, Del_key 7]"
proof -
  let ?e = "sample_env [pair 4 7, pair 6 7, pair 4 9, pair 4 7]"
  have h1: "pressed \<lparr>pressed = True\<rparr>" by simp
  have h2: "4 \<notin> set (control_keycodes ?e)"
    by (simp add: control_keycodes_def sample_env_def)
  have h3: "key_cancellation_enable (keymap_config (initial_engine (config True False)))"
    by (simp add: initial_engine_def config_def)
  have h4: "IS_BASIC_KEYCODE ?e 4" by (simp add: sample_env_def)
  have h5: "process_key_cancellation_user ?e 4 \<lparr>pressed = True\<rparr>" by (simp add: sample_env_def)
  have t: "map (\<lambda>p. Del_key (unpress p))
             (filter (\<lambda>p. press p = 4) (key_cancellation_table ?e)) =
           [Del_key 7, Del_key 9, Del_key 7]"
    by (simp add: sample_env_def pair_def)
  from press_path_releases_each_unpress [OF h1 h2 h3 h4 h5] t h1 h2 h3 h4 h5
  show ?thesis by simp
qed

section \<open>The handler: what it does to the state\<close>

lemma hold_buffer_temp_update [simp]:
  "hold_buffer (s\<lparr>buffer_keyreports_temp := t\<rparr>) = hold_buffer s"
  by (simp add: hold_buffer_def)

lemma hold_buffer_scan_snapshot [simp]:
  "hold_buffer (scan_snapshot ps n s) = hold_buffer s"
  by (simp add: hold_buffer_def scan_snapshot_frame)

lemma engine_wf_memcpy:
  "engine_wf s \<Longrightarrow> engine_wf (s\<lparr>buffer_keyreports_temp := buffer_keyreports s\<rparr>)"
  by (simp add: engine_wf_def)

lemma engine_wf_scan_snapshot:
  "engine_wf s \<Longrightarrow> engine_wf (scan_snapshot ps n s)"
  by (simp add: engine_wf_def scan_snapshot_frame)

lemma engine_wf_add: "engine_wf s \<Longrightarrow> engine_wf (add_key_buffer s k)"
  by (simp add: add_key_buffer_def engine_wf_def)

lemma engine_wf_del: "engine_wf s \<Longrightarrow> engine_wf (del_key_buffer s k)"
  using del_key_buffer_from_frame [of s k 0]
  by (simp add: del_key_buffer_def engine_wf_def)

lemma engine_wf_control:
  "control_switch e keycode s = Some (acts, s') \<Longrightarrow> engine_wf s' = engine_wf s"
  by (drule control_switch_Some) (simp add: engine_wf_def)

lemma hold_buffer_control:
  "control_switch e keycode s = Some (acts, s') \<Longrightarrow> hold_buffer s' = hold_buffer s"
  by (drule control_switch_Some) (simp add: hold_buffer_def)

lemma add_key_buffer_config [simp]: "keymap_config (add_key_buffer s k) = keymap_config s"
  by (simp add: add_key_buffer_def)

lemma del_key_buffer_config [simp]: "keymap_config (del_key_buffer s k) = keymap_config s"
  using del_key_buffer_from_frame [of s k 0] by (simp add: del_key_buffer_def)

lemma scan_snapshot_config [simp]: "keymap_config (scan_snapshot ps n s) = keymap_config s"
  by (simp add: scan_snapshot_frame)

lemma process_wf:
  "engine_wf s \<Longrightarrow> engine_wf (snd (snd (process_key_cancellation e keycode record s)))"
  by (auto simp: process_key_cancellation_def Let_def engine_wf_control engine_wf_add
      engine_wf_del engine_wf_memcpy engine_wf_scan_snapshot split: option.splits)

text \<open>The tracked keys after one call of the handler.\<close>

lemma process_hold_buffer:
  assumes "engine_wf s"
  shows "hold_buffer (snd (snd (process_key_cancellation e keycode record s))) =
    (if (pressed record \<longrightarrow> keycode \<notin> set (control_keycodes e)) \<and>
        key_cancellation_enable (keymap_config s) \<and>
        IS_BASIC_KEYCODE e keycode \<and>
        process_key_cancellation_user e keycode record \<and>
        key_cancellation_recovery_enable (keymap_config s) \<and>
        keycode \<in> press ` set (key_cancellation_table e)
     then (if pressed record
           then (if keycode \<in> set (hold_buffer s) \<or>
                    KEYREPORT_BUFFER_SIZE \<le> buffer_keyreport_count s
                 then hold_buffer s else hold_buffer s @ [keycode])
           else remove1 keycode (hold_buffer s))
     else hold_buffer s)"
proof -
  from assms have wf: "buffer_keyreport_count s \<le> length (buffer_keyreports s)"
    "length (buffer_keyreports s) = KEYREPORT_BUFFER_SIZE"
    by (simp_all add: engine_wf_def)
  show ?thesis
  proof (cases "pressed record \<and> keycode \<in> set (control_keycodes e)")
    case True
    then obtain acts s' where cs: "control_switch e keycode s = Some (acts, s')"
      using control_switch_None_iff [of e keycode s] by (cases "control_switch e keycode s") auto
    with True show ?thesis
      by (simp add: process_key_cancellation_def hold_buffer_control [OF cs])
  next
    case False
    then have "(if pressed record then control_switch e keycode s else None) = None"
      by (auto simp: control_switch_None_iff)
    then show ?thesis using False
      by (auto simp: process_key_cancellation_def Let_def in_press_list_iff
          add_key_buffer_hold [OF wf] del_key_buffer_hold [OF wf(1)])
  qed
qed

lemma process_config:
  "\<not> (pressed record \<and> keycode \<in> set (control_keycodes e)) \<Longrightarrow>
   keymap_config (snd (snd (process_key_cancellation e keycode record s))) = keymap_config s"
proof -
  assume "\<not> (pressed record \<and> keycode \<in> set (control_keycodes e))"
  then have "(if pressed record then control_switch e keycode s else None) = None"
    by (auto simp: control_switch_None_iff)
  then show ?thesis by (simp add: process_key_cancellation_def Let_def)
qed

lemma run_events_wf: "engine_wf s \<Longrightarrow> engine_wf (run_events e evs s)"
  by (induction e evs s rule: run_events.induct) (simp_all add: process_wf)

lemma run_events_append:
  "run_events e (evs @ evs') s = run_events e evs' (run_events e evs s)"
  by (induction e evs s rule: run_events.induct) simp_all

text \<open>Only basic keycodes of the press list are ever tracked.\<close>

lemma run_events_basic:
  "engine_wf s \<Longrightarrow> \<forall>x \<in> set (hold_buffer s). IS_BASIC_KEYCODE e x \<Longrightarrow>
   \<forall>x \<in> set (hold_buffer (run_events e evs s)). IS_BASIC_KEYCODE e x"
proof (induction e evs s rule: run_events.induct)
  case (1 e s)
  then show ?case by simp
next
  case (2 e k p evs s)
  let ?s' = "snd (snd (process_key_cancellation e k \<lparr>pressed = p\<rparr> s))"
  have wf': "engine_wf ?s'" using 2(2) by (rule process_wf)
  have "\<forall>x \<in> set (hold_buffer ?s'). IS_BASIC_KEYCODE e x"
    using 2(3) by (auto simp: process_hold_buffer [OF 2(2)] dest: notin_set_remove1 split: if_splits)
  from 2(1) [OF wf' this] show ?case by simp
qed

section \<open>Control keycodes\<close>

lemma control_press_result:
  assumes "control_switch e keycode s = Some r"
  shows "process_key_cancellation e keycode \<lparr>pressed = True\<rparr> s = (False, r)"
  using assms by (cases r) (simp add: process_key_cancellation_def)

lemma control_release_result:
  assumes "\<not> IS_BASIC_KEYCODE e keycode"
  shows "process_key_cancellation e keycode \<lparr>pressed = False\<rparr> s = (True, [], s)"
  using assms by (simp add: process_key_cancellation_def)

text \<open>
  C7. The six control keycodes are distinct (they are \<^verbatim>\<open>case\<close> labels of one
  \<^verbatim>\<open>switch\<close>) and none of them is a basic keycode. Then a press of each makes
  exactly the call of its mode operation and returns false, with both arrays and the
  count as they were and no \<^verbatim>\<open>add_key\<close> or \<^verbatim>\<open>del_key\<close>; a release of a control
  keycode returns true, makes no call and changes nothing; and after any sequence of
  events from the empty buffer no control keycode is tracked in the hold buffer.
\<close>

theorem control_keycodes_are_isolated:
  assumes "distinct (control_keycodes e)"
    and "\<forall>c \<in> set (control_keycodes e). \<not> IS_BASIC_KEYCODE e c"
  shows "process_key_cancellation e (QK_KEY_CANCELLATION_ON e) \<lparr>pressed = True\<rparr> s =
           (False, key_cancellation_enable_op s) \<and>
         process_key_cancellation e (QK_KEY_CANCELLATION_OFF e) \<lparr>pressed = True\<rparr> s =
           (False, key_cancellation_disable s) \<and>
         process_key_cancellation e (QK_KEY_CANCELLATION_TOGGLE e) \<lparr>pressed = True\<rparr> s =
           (False, key_cancellation_toggle s) \<and>
         process_key_cancellation e (QK_KEY_CANCELLATION_RECOVERY_ON e) \<lparr>pressed = True\<rparr> s =
           (False, key_cancellation_recovery_enable_op s) \<and>
         process_key_cancellation e (QK_KEY_CANCELLATION_RECOVERY_OFF e) \<lparr>pressed = True\<rparr> s =
           (False, key_cancellation_recovery_disable s) \<and>
         process_key_cancellation e (QK_KEY_CANCELLATION_RECOVERY_TOGGLE e) \<lparr>pressed = True\<rparr> s =
           (False, key_cancellation_recovery_toggle s) \<and>
         (\<forall>c \<in> set (control_keycodes e).
            (\<exists>cfg. process_key_cancellation e c \<lparr>pressed = True\<rparr> s =
               (False, [Eeconfig_update_keymap cfg], s\<lparr>keymap_config := cfg\<rparr>)) \<and>
            process_key_cancellation e c \<lparr>pressed = False\<rparr> s = (True, [], s) \<and>
            c \<notin> set (hold_buffer (run_events e evs (initial_engine cfg0))))"
proof -
  from assms(1) have sw:
    "control_switch e (QK_KEY_CANCELLATION_ON e) s = Some (key_cancellation_enable_op s)"
    "control_switch e (QK_KEY_CANCELLATION_OFF e) s = Some (key_cancellation_disable s)"
    "control_switch e (QK_KEY_CANCELLATION_TOGGLE e) s = Some (key_cancellation_toggle s)"
    "control_switch e (QK_KEY_CANCELLATION_RECOVERY_ON e) s =
       Some (key_cancellation_recovery_enable_op s)"
    "control_switch e (QK_KEY_CANCELLATION_RECOVERY_OFF e) s =
       Some (key_cancellation_recovery_disable s)"
    "control_switch e (QK_KEY_CANCELLATION_RECOVERY_TOGGLE e) s =
       Some (key_cancellation_recovery_toggle s)"
    by (auto simp: control_switch_def control_keycodes_def)
  have six: "process_key_cancellation e (QK_KEY_CANCELLATION_ON e) \<lparr>pressed = True\<rparr> s =
           (False, key_cancellation_enable_op s)"
    "process_key_cancellation e (QK_KEY_CANCELLATION_OFF e) \<lparr>pressed = True\<rparr> s =
           (False, key_cancellation_disable s)"
    "process_key_cancellation e (QK_KEY_CANCELLATION_TOGGLE e) \<lparr>pressed = True\<rparr> s =
           (False, key_cancellation_toggle s)"
    "process_key_cancellation e (QK_KEY_CANCELLATION_RECOVERY_ON e) \<lparr>pressed = True\<rparr> s =
           (False, key_cancellation_recovery_enable_op s)"
    "process_key_cancellation e (QK_KEY_CANCELLATION_RECOVERY_OFF e) \<lparr>pressed = True\<rparr> s =
           (False, key_cancellation_recovery_disable s)"
    "process_key_cancellation e (QK_KEY_CANCELLATION_RECOVERY_TOGGLE e) \<lparr>pressed = True\<rparr> s =
           (False, key_cancellation_recovery_toggle s)"
    by (rule control_press_result, rule sw)+
  have rest: "\<forall>c \<in> set (control_keycodes e).
            (\<exists>cfg. process_key_cancellation e c \<lparr>pressed = True\<rparr> s =
               (False, [Eeconfig_update_keymap cfg], s\<lparr>keymap_config := cfg\<rparr>)) \<and>
            process_key_cancellation e c \<lparr>pressed = False\<rparr> s = (True, [], s) \<and>
            c \<notin> set (hold_buffer (run_events e evs (initial_engine cfg0)))"
  proof
    fix c assume c: "c \<in> set (control_keycodes e)"
    with assms(2) have nb: "\<not> IS_BASIC_KEYCODE e c" by blast
    have "\<exists>cfg. process_key_cancellation e c \<lparr>pressed = True\<rparr> s =
               (False, [Eeconfig_update_keymap cfg], s\<lparr>keymap_config := cfg\<rparr>)"
      using c six
      by (auto simp: control_keycodes_def key_cancellation_enable_op_def
          key_cancellation_disable_def key_cancellation_toggle_def
          key_cancellation_recovery_enable_op_def key_cancellation_recovery_disable_def
          key_cancellation_recovery_toggle_def Let_def)
    moreover have "process_key_cancellation e c \<lparr>pressed = False\<rparr> s = (True, [], s)"
      using nb by (rule control_release_result)
    moreover have "c \<notin> set (hold_buffer (run_events e evs (initial_engine cfg0)))"
    proof -
      have wf0: "engine_wf (initial_engine cfg0)"
        using initial_engine_ok [of cfg0] by (simp add: buffer_ok_def)
      have "\<forall>x \<in> set (hold_buffer (initial_engine cfg0)). IS_BASIC_KEYCODE e x"
        by (simp add: hold_buffer_def initial_engine_def)
      from run_events_basic [OF wf0 this] nb show ?thesis by blast
    qed
    ultimately show "(\<exists>cfg. process_key_cancellation e c \<lparr>pressed = True\<rparr> s =
               (False, [Eeconfig_update_keymap cfg], s\<lparr>keymap_config := cfg\<rparr>)) \<and>
            process_key_cancellation e c \<lparr>pressed = False\<rparr> s = (True, [], s) \<and>
            c \<notin> set (hold_buffer (run_events e evs (initial_engine cfg0)))"
      by blast
  qed
  from six rest show ?thesis by blast
qed

theorem control_keycodes_are_isolated_witness:
  "distinct (control_keycodes (sample_env [pair 4 7, pair 31858 4])) \<and>
   list_all (\<lambda>c. \<not> IS_BASIC_KEYCODE (sample_env [pair 4 7, pair 31858 4]) c)
     (control_keycodes (sample_env [pair 4 7, pair 31858 4])) \<and>
   31858 \<in> set (control_keycodes (sample_env [pair 4 7, pair 31858 4])) \<and>
   process_key_cancellation (sample_env [pair 4 7, pair 31858 4]) 31858 \<lparr>pressed = True\<rparr>
     (run_events (sample_env [pair 4 7, pair 31858 4]) [(4, True)]
        (initial_engine (config True True))) =
   (False, key_cancellation_toggle
     (run_events (sample_env [pair 4 7, pair 31858 4]) [(4, True)]
        (initial_engine (config True True)))) \<and>
   process_key_cancellation (sample_env [pair 4 7, pair 31858 4]) 31858 \<lparr>pressed = False\<rparr>
     (run_events (sample_env [pair 4 7, pair 31858 4]) [(4, True)]
        (initial_engine (config True True))) =
   (True, [], run_events (sample_env [pair 4 7, pair 31858 4]) [(4, True)]
        (initial_engine (config True True))) \<and>
   31858 \<notin> set (hold_buffer
     (run_events (sample_env [pair 4 7, pair 31858 4])
        [(4, True), (31858, True), (31858, False), (31858, True), (31858, False)]
        (initial_engine (config True True))))"
proof -
  let ?e = "sample_env [pair 4 7, pair 31858 4]"
  have h1: "distinct (control_keycodes ?e)"
    by (simp add: control_keycodes_def sample_env_def)
  have h2': "list_all (\<lambda>c. \<not> IS_BASIC_KEYCODE ?e c) (control_keycodes ?e)"
    by (simp add: control_keycodes_def sample_env_def)
  then have h2: "\<forall>c \<in> set (control_keycodes ?e). \<not> IS_BASIC_KEYCODE ?e c"
    by (simp add: list_all_iff)
  have h3: "31858 \<in> set (control_keycodes ?e)"
    by (simp add: control_keycodes_def sample_env_def)
  have q: "QK_KEY_CANCELLATION_TOGGLE ?e = 31858" by (simp add: sample_env_def)
  note t = control_keycodes_are_isolated [OF h1 h2,
      of "run_events ?e [(4, True)] (initial_engine (config True True))"
         "[(4, True), (31858, True), (31858, False), (31858, True), (31858, False)]"
         "config True True"]
  from t h3 have "process_key_cancellation ?e 31858 \<lparr>pressed = False\<rparr>
     (run_events ?e [(4, True)] (initial_engine (config True True))) =
       (True, [], run_events ?e [(4, True)] (initial_engine (config True True))) \<and>
     31858 \<notin> set (hold_buffer (run_events ?e
        [(4, True), (31858, True), (31858, False), (31858, True), (31858, False)]
        (initial_engine (config True True))))"
    by blast
  moreover from t have "process_key_cancellation ?e (QK_KEY_CANCELLATION_TOGGLE ?e)
     \<lparr>pressed = True\<rparr> (run_events ?e [(4, True)] (initial_engine (config True True))) =
       (False, key_cancellation_toggle
          (run_events ?e [(4, True)] (initial_engine (config True True))))"
    by blast
  ultimately show ?thesis using h1 h2' h3 unfolding q by blast
qed

section \<open>The clearing step of the release path\<close>

lemma distinct_filter_nth_unique:
  assumes "distinct (filter P xs)" "a < b" "b < length xs" "xs ! a = xs ! b" "P (xs ! a)"
  shows False
proof -
  have "xs = take b xs @ xs ! b # drop (Suc b) xs"
    using assms(3) by (rule id_take_nth_drop)
  then have "filter P xs = filter P (take b xs) @ xs ! b # filter P (drop (Suc b) xs)"
    using assms(4,5) by (metis filter.simps(2) filter_append)
  with assms(1) have "xs ! b \<notin> set (filter P (take b xs))"
    by (metis distinct_append disjoint_iff list.set_intros(1))
  moreover have "xs ! a \<in> set (take b xs)"
    using assms(2,3) by (metis in_set_conv_nth length_take min.absorb2 nth_take less_imp_le)
  ultimately show False using assms(4,5) by simp
qed

lemma snapshot_unique:
  assumes "snapshot_ok s" "a < b" "b < buffer_keyreport_count s"
    "buffer_keyreports_temp s ! a = buffer_keyreports_temp s ! b"
    "buffer_keyreports_temp s ! a \<noteq> 0"
  shows False
proof -
  from assms(1) have d: "distinct (filter (\<lambda>k. k \<noteq> 0) (snapshot s))"
    and n: "buffer_keyreport_count s \<le> length (buffer_keyreports_temp s)"
    by (simp_all add: snapshot_ok_def)
  from n assms(3) have bl: "b < length (snapshot s)" by (simp add: snapshot_def)
  from assms(2,3) have "snapshot s ! a = buffer_keyreports_temp s ! a"
    "snapshot s ! b = buffer_keyreports_temp s ! b"
    by (simp_all add: snapshot_def)
  with assms(4,5) have "snapshot s ! a = snapshot s ! b" "snapshot s ! a \<noteq> 0" by simp_all
  with d assms(2) bl show False by (rule distinct_filter_nth_unique)
qed

lemma scan_pair_clears:
  assumes "snapshot_ok s" "j < buffer_keyreport_count s"
    "press p = buffer_keyreports_temp s ! j"
    "key_cancellation_is_key_in_buffer s (unpress p)"
    "i < buffer_keyreport_count s"
  shows "buffer_keyreports_temp (scan_pair p j s) ! i =
           (if i < j \<and> buffer_keyreports_temp s ! i = unpress p then 0
            else buffer_keyreports_temp s ! i)"
proof -
  let ?t = "buffer_keyreports_temp s"
  from assms(1) have n: "buffer_keyreport_count s \<le> length ?t" by (simp add: snapshot_ok_def)
  with assms(5) have il: "i < length ?t" by simp
  note r = scan_pair_nth [OF il, of p j]
  show ?thesis
  proof (cases "i < j \<and> ?t ! i = unpress p")
    case False
    with r show ?thesis by auto
  next
    case True
    show ?thesis
    proof (cases "unpress p = 0")
      case True
      with r \<open>i < j \<and> ?t ! i = unpress p\<close> show ?thesis by auto
    next
      case False
      have "\<forall>m' < i. ?t ! m' \<noteq> unpress p"
      proof (intro allI impI notI)
        fix m' assume "m' < i" "?t ! m' = unpress p"
        with True False have "?t ! m' = ?t ! i" "?t ! m' \<noteq> 0" by simp_all
        with assms(1) \<open>m' < i\<close> assms(5) show False by (rule snapshot_unique)
      qed
      with r True assms(3,4) show ?thesis by simp
    qed
  qed
qed

text \<open>The invariant of the snapshot holds after the copy and through the scan.\<close>

lemma snapshot_ok_memcpy:
  "buffer_ok s \<Longrightarrow> snapshot_ok (s\<lparr>buffer_keyreports_temp := buffer_keyreports s\<rparr>)"
  by (simp add: buffer_ok_def engine_wf_def snapshot_ok_def snapshot_def hold_buffer_def
      distinct_filter)

lemma distinct_filter_update:
  "distinct (filter P xs) \<Longrightarrow> \<not> P y \<Longrightarrow> distinct (filter P (xs[m := y]))"
proof (induction xs arbitrary: m)
  case Nil
  then show ?case by simp
next
  case (Cons x xs)
  have sub: "\<And>n. set (filter P (xs[n := y])) \<subseteq> set (filter P xs)"
    using Cons.prems(2) by (auto dest: set_update_subset_insert [THEN subsetD])
  show ?case
  proof (cases m)
    case 0
    with Cons.prems show ?thesis by (auto split: if_splits)
  next
    case (Suc n)
    with Cons.prems Cons.IH [of n] sub [of n] show ?thesis by (auto split: if_splits)
  qed
qed

lemma take_update_zero:
  "take n (del_key_buffer_temp_from tmp k e i) = take n tmp \<or>
   (\<exists>m. take n (del_key_buffer_temp_from tmp k e i) = (take n tmp)[m := 0])"
proof (induction tmp k e i rule: del_key_buffer_temp_from.induct)
  case (1 tmp k e i)
  show ?case
  proof (cases "i < e")
    case False
    then show ?thesis by (subst (1 2) del_key_buffer_temp_from.simps) simp
  next
    case lt: True
    show ?thesis
    proof (cases "tmp ! i = k")
      case True
      have "take n (tmp[i := 0]) = (take n tmp)[i := 0]" by (rule take_update_swap)
      with lt True show ?thesis by (subst (1 2) del_key_buffer_temp_from.simps) auto
    next
      case False
      with lt 1 show ?thesis by (subst (1 2) del_key_buffer_temp_from.simps) simp
    qed
  qed
qed

lemma snapshot_ok_scan_pair: "snapshot_ok s \<Longrightarrow> snapshot_ok (scan_pair p j s)"
proof -
  assume ok: "snapshot_ok s"
  let ?t' = "del_key_buffer_temp_from (buffer_keyreports_temp s) (unpress p) j 0"
  have "distinct (filter (\<lambda>k. k \<noteq> 0) (take (buffer_keyreport_count s) ?t'))"
    using take_update_zero [of "buffer_keyreport_count s" "buffer_keyreports_temp s" "unpress p" j 0]
      ok distinct_filter_update [of "\<lambda>k. k \<noteq> 0" "snapshot s" 0]
    by (auto simp: snapshot_ok_def snapshot_def)
  with ok show ?thesis
    by (simp add: scan_pair_def del_key_buffer_temp_def snapshot_ok_def snapshot_def
        del_key_buffer_temp_from_length)
qed

lemma snapshot_ok_scan_pairs: "snapshot_ok s \<Longrightarrow> snapshot_ok (scan_pairs ps j s)"
  by (induction ps arbitrary: s) (simp_all add: snapshot_ok_scan_pair)

lemma snapshot_ok_scan_snapshot: "snapshot_ok s \<Longrightarrow> snapshot_ok (scan_snapshot ps n s)"
  by (induction n arbitrary: s) (simp_all add: snapshot_ok_scan_pairs)

section \<open>The release path on short buffers\<close>

lemma hold_buffer_nth:
  "engine_wf s \<Longrightarrow> hold_buffer s = xs \<Longrightarrow>
   buffer_keyreport_count s = length xs \<and> (\<forall>i < length xs. buffer_keyreports s ! i = xs ! i)"
  by (auto simp: engine_wf_def hold_buffer_def)

text \<open>A release that reaches the algorithm, in one equation.\<close>

lemma release_result:
  assumes "key_cancellation_enable (keymap_config s)"
    and "key_cancellation_recovery_enable (keymap_config s)"
    and "IS_BASIC_KEYCODE e k"
    and "process_key_cancellation_user e k \<lparr>pressed = False\<rparr>"
    and "k \<in> press ` set (key_cancellation_table e)"
  shows "process_key_cancellation e k \<lparr>pressed = False\<rparr> s =
    (if buffer_keyreport_count (del_key_buffer s k) = 0 then (True, [], del_key_buffer s k)
     else (True,
       compare_buffers_from
         (scan_snapshot (key_cancellation_table e) (buffer_keyreport_count (del_key_buffer s k))
            ((del_key_buffer s k)\<lparr>buffer_keyreports_temp :=
                buffer_keyreports (del_key_buffer s k)\<rparr>)) 0,
       scan_snapshot (key_cancellation_table e) (buffer_keyreport_count (del_key_buffer s k))
            ((del_key_buffer s k)\<lparr>buffer_keyreports_temp :=
                buffer_keyreports (del_key_buffer s k)\<rparr>)))"
  using assms by (simp add: process_key_cancellation_def Let_def in_press_list_iff)

lemma compare_one:
  assumes "buffer_keyreport_count s = 1"
    and "buffer_keyreports_temp s ! 0 = buffer_keyreports s ! 0"
  shows "compare_buffers_from s 0 = [Add_key (buffer_keyreports s ! 0)]"
proof -
  have "compare_buffers_from s (Suc 0) = []"
    using assms(1) by (subst compare_buffers_from.simps) simp
  then show ?thesis using assms by (subst compare_buffers_from.simps) simp
qed


text \<open>With one key tracked the scan has nothing to clear: the key is registered.\<close>

lemma reconcile_one:
  assumes "engine_wf s" "hold_buffer s = [x]"
  shows "compare_buffers_from
           (scan_snapshot ps (buffer_keyreport_count s)
              (s\<lparr>buffer_keyreports_temp := buffer_keyreports s\<rparr>)) 0 = [Add_key x]"
proof -
  from hold_buffer_nth [OF assms] have n: "buffer_keyreport_count s = 1"
    and x: "buffer_keyreports s ! 0 = x" by simp_all
  let ?s2 = "s\<lparr>buffer_keyreports_temp := buffer_keyreports s\<rparr>"
  have "scan_snapshot ps (Suc 0) ?s2 = ?s2" by (simp add: scan_pairs_0)
  moreover have "compare_buffers_from ?s2 0 = [Add_key (buffer_keyreports ?s2 ! 0)]"
    by (rule compare_one) (simp_all add: n)
  ultimately show ?thesis using n x by simp
qed


section \<open>Recovery\<close>

lemma engine_wf_count:
  "engine_wf s \<Longrightarrow> buffer_keyreport_count s = length (hold_buffer s)"
  by (simp add: engine_wf_def hold_buffer_def)

text \<open>The state after an admitted press, and after an admitted release.\<close>

lemma press_step:
  assumes "engine_wf s" "key_cancellation_enable (keymap_config s)"
    "key_cancellation_recovery_enable (keymap_config s)" "plain_key e k"
  shows "engine_wf (snd (snd (process_key_cancellation e k \<lparr>pressed = True\<rparr> s))) \<and>
    keymap_config (snd (snd (process_key_cancellation e k \<lparr>pressed = True\<rparr> s))) =
      keymap_config s \<and>
    hold_buffer (snd (snd (process_key_cancellation e k \<lparr>pressed = True\<rparr> s))) =
      (if k \<in> press ` set (key_cancellation_table e) \<and> k \<notin> set (hold_buffer s) \<and>
          length (hold_buffer s) < 10
       then hold_buffer s @ [k] else hold_buffer s)"
proof -
  from assms(4) have nc: "k \<notin> set (control_keycodes e)" by (simp add: plain_key_def)
  have "keymap_config (snd (snd (process_key_cancellation e k \<lparr>pressed = True\<rparr> s))) =
      keymap_config s"
    by (rule process_config) (simp add: nc)
  moreover have "hold_buffer (snd (snd (process_key_cancellation e k \<lparr>pressed = True\<rparr> s))) =
      (if k \<in> press ` set (key_cancellation_table e) \<and> k \<notin> set (hold_buffer s) \<and>
          length (hold_buffer s) < 10
       then hold_buffer s @ [k] else hold_buffer s)"
    using assms engine_wf_count [OF assms(1)]
    by (simp add: process_hold_buffer [OF assms(1)] plain_key_def KEYREPORT_BUFFER_SIZE_def)
  ultimately show ?thesis using process_wf [OF assms(1)] by simp
qed


text \<open>The calls of an admitted release of a listed key, from the keys tracked before it.\<close>

lemma release_actions_one:
  assumes "engine_wf s" "key_cancellation_enable (keymap_config s)"
    "key_cancellation_recovery_enable (keymap_config s)" "plain_key e k"
    "k \<in> press ` set (key_cancellation_table e)" "remove1 k (hold_buffer s) = [x]"
  shows "fst (snd (process_key_cancellation e k \<lparr>pressed = False\<rparr> s)) = [Add_key x]"
proof -
  let ?s1 = "del_key_buffer s k"
  have wf1: "engine_wf ?s1" using assms(1) by (rule engine_wf_del)
  have h1: "hold_buffer ?s1 = [x]"
    using assms(1,6) by (simp add: del_key_buffer_hold engine_wf_def)
  with engine_wf_count [OF wf1] have n: "buffer_keyreport_count ?s1 \<noteq> 0" by simp
  from assms(4) have "IS_BASIC_KEYCODE e k" "process_key_cancellation_user e k \<lparr>pressed = False\<rparr>"
    by (simp_all add: plain_key_def)
  from release_result [OF assms(2,3) this assms(5)] n reconcile_one [OF wf1 h1]
  show ?thesis by simp
qed

lemma release_actions_none:
  assumes "engine_wf s" "key_cancellation_enable (keymap_config s)"
    "key_cancellation_recovery_enable (keymap_config s)" "plain_key e k"
    "k \<in> press ` set (key_cancellation_table e)" "remove1 k (hold_buffer s) = []"
  shows "fst (snd (process_key_cancellation e k \<lparr>pressed = False\<rparr> s)) = []"
proof -
  let ?s1 = "del_key_buffer s k"
  have wf1: "engine_wf ?s1" using assms(1) by (rule engine_wf_del)
  have h1: "hold_buffer ?s1 = []"
    using assms(1,6) by (simp add: del_key_buffer_hold engine_wf_def)
  with engine_wf_count [OF wf1] have n: "buffer_keyreport_count ?s1 = 0" by simp
  from assms(4) have "IS_BASIC_KEYCODE e k" "process_key_cancellation_user e k \<lparr>pressed = False\<rparr>"
    by (simp_all add: plain_key_def)
  from release_result [OF assms(2,3) this assms(5)] n show ?thesis by simp
qed


lemma pair_in_press_list:
  "\<lparr>press = a, unpress = b\<rparr> \<in> set ps \<Longrightarrow> a \<in> press ` set ps"
  by force

text \<open>
  C2, as the code has it. Cancellation and recovery are on, the buffer is empty, A and B
  are different keycodes that reach the algorithm, and the table has a pair in which A
  cancels B. After press(A), press(B), the release of A makes the call
  \<^verbatim>\<open>add_key(B)\<close>, and no other, when B is itself the press of some pair, which is
  what makes the handler track it; when B is the press of no pair the release of A
  makes no call at all.
\<close>

theorem recovery_restores_tracked_key:
  assumes "\<lparr>press = A, unpress = B\<rparr> \<in> set (key_cancellation_table e)"
    and "A \<noteq> B" and "plain_key e A" and "plain_key e B"
    and "engine_wf s" and "buffer_keyreport_count s = 0"
    and "key_cancellation_enable (keymap_config s)"
    and "key_cancellation_recovery_enable (keymap_config s)"
  shows "fst (snd (process_key_cancellation e A \<lparr>pressed = False\<rparr>
                     (run_events e [(A, True), (B, True)] s))) =
         (if B \<in> press ` set (key_cancellation_table e) then [Add_key B] else [])"
proof -
  let ?T = "key_cancellation_table e"
  let ?sA = "snd (snd (process_key_cancellation e A \<lparr>pressed = True\<rparr> s))"
  let ?sB = "snd (snd (process_key_cancellation e B \<lparr>pressed = True\<rparr> ?sA))"
  have run: "run_events e [(A, True), (B, True)] s = ?sB" by simp
  have Ain: "A \<in> press ` set ?T" using assms(1) by (rule pair_in_press_list)
  have h0: "hold_buffer s = []" using assms(6) by (simp add: hold_buffer_def)
  from press_step [OF assms(5,7,8,3)] h0 Ain
  have A: "engine_wf ?sA" "keymap_config ?sA = keymap_config s" "hold_buffer ?sA = [A]"
    by simp_all
  from A(2) assms(7,8) have cA: "key_cancellation_enable (keymap_config ?sA)"
    "key_cancellation_recovery_enable (keymap_config ?sA)" by simp_all
  from press_step [OF A(1) cA assms(4)] A(2,3) assms(2)
  have B: "engine_wf ?sB" "keymap_config ?sB = keymap_config s"
    "hold_buffer ?sB = (if B \<in> press ` set ?T then [A, B] else [A])"
    by simp_all
  from B(2) assms(7,8) have cB: "key_cancellation_enable (keymap_config ?sB)"
    "key_cancellation_recovery_enable (keymap_config ?sB)" by simp_all
  show ?thesis
  proof (cases "B \<in> press ` set ?T")
    case True
    with B(3) have "remove1 A (hold_buffer ?sB) = [B]" by simp
    from release_actions_one [OF B(1) cB assms(3) Ain this] True show ?thesis
      unfolding run by simp
  next
    case False
    with B(3) have "remove1 A (hold_buffer ?sB) = []" by simp
    from release_actions_none [OF B(1) cB assms(3) Ain this] False show ?thesis
      unfolding run by simp
  qed
qed

theorem recovery_restores_tracked_key_witness:
  "\<lparr>press = 4, unpress = 7\<rparr> \<in> set (key_cancellation_table (sample_env [pair 4 7, pair 7 4])) \<and>
   (4 :: keycode) \<noteq> 7 \<and>
   plain_key (sample_env [pair 4 7, pair 7 4]) 4 \<and>
   plain_key (sample_env [pair 4 7, pair 7 4]) 7 \<and>
   engine_wf (initial_engine (config True True)) \<and>
   buffer_keyreport_count (initial_engine (config True True)) = 0 \<and>
   key_cancellation_enable (keymap_config (initial_engine (config True True))) \<and>
   key_cancellation_recovery_enable (keymap_config (initial_engine (config True True))) \<and>
   fst (snd (process_key_cancellation (sample_env [pair 4 7, pair 7 4]) 4 \<lparr>pressed = False\<rparr>
     (run_events (sample_env [pair 4 7, pair 7 4]) [(4, True), (7, True)]
        (initial_engine (config True True))))) = [Add_key 7]"
proof -
  let ?e = "sample_env [pair 4 7, pair 7 4]" and ?s = "initial_engine (config True True)"
  have h1: "\<lparr>press = 4, unpress = 7\<rparr> \<in> set (key_cancellation_table ?e)"
    by (simp add: sample_env_def pair_def)
  have h2: "(4 :: keycode) \<noteq> 7" by simp
  have h3: "plain_key ?e 4" by (simp add: plain_key_def control_keycodes_def sample_env_def)
  have h4: "plain_key ?e 7" by (simp add: plain_key_def control_keycodes_def sample_env_def)
  have h5: "engine_wf ?s" using initial_engine_ok [of "config True True"] by (simp add: buffer_ok_def)
  have h6: "buffer_keyreport_count ?s = 0" by (simp add: initial_engine_def)
  have h7: "key_cancellation_enable (keymap_config ?s)" by (simp add: initial_engine_def config_def)
  have h8: "key_cancellation_recovery_enable (keymap_config ?s)"
    by (simp add: initial_engine_def config_def)
  have t: "(7 :: keycode) \<in> press ` set (key_cancellation_table ?e)"
    by (simp add: sample_env_def pair_def)
  from recovery_restores_tracked_key [OF h1 h2 h3 h4 h5 h6 h7 h8] t
  have c: "fst (snd (process_key_cancellation ?e 4 \<lparr>pressed = False\<rparr>
     (run_events ?e [(4, True), (7, True)] ?s))) = [Add_key 7]"
    by simp
  from h1 h2 h3 h4 h5 h6 h7 h8 c show ?thesis by blast
qed

text \<open>
  C2 as stated fails: with the single pair (4, 7) the key 7 is not tracked, and the
  release of 4 after press(4), press(7) makes no call.
\<close>

theorem recovery_untracked_counterexample:
  "fst (snd (process_key_cancellation (sample_env [pair 4 7]) 4 \<lparr>pressed = False\<rparr>
     (run_events (sample_env [pair 4 7]) [(4, True), (7, True)]
        (initial_engine (config True True))))) = []"
  by code_simp




section \<open>What the host sees\<close>







section \<open>Mouse turbo click\<close>

lemma turbo_click_start_enabled:
  "turbo_enabled (snd (turbo_click_start env s)) = turbo_enabled s"
  by (simp add: turbo_click_start_def turbo_click_callback_def)

lemma turbo_click_stop_enabled:
  "turbo_enabled (snd (turbo_click_stop env s)) = turbo_enabled s"
  by (simp add: turbo_click_stop_def Let_def)

text \<open>
  C10. \<^verbatim>\<open>process_mouse_turbo_click\<close> returns false exactly when the keycode is the
  turbo click keycode. For that keycode a press toggles \<^verbatim>\<open>turbo_enabled\<close> and then
  runs \<^verbatim>\<open>turbo_click_start\<close> when the flag is now on and \<^verbatim>\<open>turbo_click_stop\<close>
  when it is now off: starting with no timer pending clicks once, schedules the
  callback and keeps the token; stopping with a timer pending cancels it, forgets the
  token and leaves the key unregistered. A release of that keycode, like any event of
  another keycode, makes no call and leaves the three variables as they are.
\<close>

theorem turbo_click_toggles_on_press_only:
  "(fst (process_mouse_turbo_click env keycode record tk s) = False \<longleftrightarrow> keycode = tk) \<and>
   (keycode = tk \<and> pressed record \<longrightarrow>
      turbo_enabled (snd (snd (process_mouse_turbo_click env keycode record tk s))) =
        (\<not> turbo_enabled s) \<and>
      snd (process_mouse_turbo_click env keycode record tk s) =
        (if \<not> turbo_enabled s then turbo_click_start env (s\<lparr>turbo_enabled := True\<rparr>)
         else turbo_click_stop env (s\<lparr>turbo_enabled := False\<rparr>))) \<and>
   (keycode = tk \<and> pressed record \<and> \<not> turbo_enabled s \<and>
    click_token s = INVALID_DEFERRED_TOKEN env \<longrightarrow>
      snd (process_mouse_turbo_click env keycode record tk s) =
        ([if click_registered s then Unregister_code16 (MOUSE_TURBO_CLICK_KEY env)
          else Register_code16 (MOUSE_TURBO_CLICK_KEY env), Defer_exec 5],
         \<lparr>turbo_enabled = True, click_token = defer_exec_token env,
          click_registered = (\<not> click_registered s)\<rparr>)) \<and>
   (keycode = tk \<and> pressed record \<and> turbo_enabled s \<and>
    click_token s \<noteq> INVALID_DEFERRED_TOKEN env \<longrightarrow>
      snd (process_mouse_turbo_click env keycode record tk s) =
        (Cancel_deferred_exec (click_token s) #
           (if click_registered s then [Unregister_code16 (MOUSE_TURBO_CLICK_KEY env)] else []),
         \<lparr>turbo_enabled = False, click_token = INVALID_DEFERRED_TOKEN env,
          click_registered = False\<rparr>)) \<and>
   (\<not> (keycode = tk \<and> pressed record) \<longrightarrow>
      snd (process_mouse_turbo_click env keycode record tk s) = ([], s))"
proof -
  have half: "MOUSE_TURBO_CLICK_PERIOD div 2 = 5"
    by (simp add: MOUSE_TURBO_CLICK_PERIOD_def)
  have ret: "fst (process_mouse_turbo_click env keycode record tk s) = False \<longleftrightarrow> keycode = tk"
    by (simp add: process_mouse_turbo_click_def Let_def split: prod.splits)
  have toggle: "keycode = tk \<and> pressed record \<longrightarrow>
      turbo_enabled (snd (snd (process_mouse_turbo_click env keycode record tk s))) =
        (\<not> turbo_enabled s) \<and>
      snd (process_mouse_turbo_click env keycode record tk s) =
        (if \<not> turbo_enabled s then turbo_click_start env (s\<lparr>turbo_enabled := True\<rparr>)
         else turbo_click_stop env (s\<lparr>turbo_enabled := False\<rparr>))"
    using turbo_click_start_enabled [of env "s\<lparr>turbo_enabled := True\<rparr>"]
      turbo_click_stop_enabled [of env "s\<lparr>turbo_enabled := False\<rparr>"]
    by (auto simp: process_mouse_turbo_click_def Let_def split: prod.splits)
  have start: "keycode = tk \<and> pressed record \<and> \<not> turbo_enabled s \<and>
    click_token s = INVALID_DEFERRED_TOKEN env \<longrightarrow>
      snd (process_mouse_turbo_click env keycode record tk s) =
        ([if click_registered s then Unregister_code16 (MOUSE_TURBO_CLICK_KEY env)
          else Register_code16 (MOUSE_TURBO_CLICK_KEY env), Defer_exec 5],
         \<lparr>turbo_enabled = True, click_token = defer_exec_token env,
          click_registered = (\<not> click_registered s)\<rparr>)"
    by (simp add: process_mouse_turbo_click_def Let_def turbo_click_start_def
        turbo_click_callback_def half)
  have stop: "keycode = tk \<and> pressed record \<and> turbo_enabled s \<and>
    click_token s \<noteq> INVALID_DEFERRED_TOKEN env \<longrightarrow>
      snd (process_mouse_turbo_click env keycode record tk s) =
        (Cancel_deferred_exec (click_token s) #
           (if click_registered s then [Unregister_code16 (MOUSE_TURBO_CLICK_KEY env)] else []),
         \<lparr>turbo_enabled = False, click_token = INVALID_DEFERRED_TOKEN env,
          click_registered = False\<rparr>)"
    by (simp add: process_mouse_turbo_click_def Let_def turbo_click_stop_def)
  have other: "\<not> (keycode = tk \<and> pressed record) \<longrightarrow>
      snd (process_mouse_turbo_click env keycode record tk s) = ([], s)"
    by (simp add: process_mouse_turbo_click_def)
  from ret toggle start stop other show ?thesis by blast
qed

theorem turbo_click_toggles_on_press_only_witness:
  "pressed \<lparr>pressed = True\<rparr> \<and>
   \<not> turbo_enabled (initial_turbo sample_turbo_env) \<and>
   click_token (initial_turbo sample_turbo_env) = INVALID_DEFERRED_TOKEN sample_turbo_env \<and>
   process_mouse_turbo_click sample_turbo_env 30000 \<lparr>pressed = True\<rparr> 30000
     (initial_turbo sample_turbo_env) =
     (False, [Register_code16 209, Defer_exec 5],
      \<lparr>turbo_enabled = True, click_token = 1, click_registered = True\<rparr>) \<and>
   \<not> pressed \<lparr>pressed = False\<rparr> \<and>
   process_mouse_turbo_click sample_turbo_env 30000 \<lparr>pressed = False\<rparr> 30000
     \<lparr>turbo_enabled = True, click_token = 1, click_registered = True\<rparr> =
     (False, [], \<lparr>turbo_enabled = True, click_token = 1, click_registered = True\<rparr>) \<and>
   turbo_enabled \<lparr>turbo_enabled = True, click_token = 1, click_registered = True\<rparr> \<and>
   click_token \<lparr>turbo_enabled = True, click_token = 1, click_registered = True\<rparr> \<noteq>
     INVALID_DEFERRED_TOKEN sample_turbo_env \<and>
   process_mouse_turbo_click sample_turbo_env 30000 \<lparr>pressed = True\<rparr> 30000
     \<lparr>turbo_enabled = True, click_token = 1, click_registered = True\<rparr> =
     (False, [Cancel_deferred_exec 1, Unregister_code16 209],
      \<lparr>turbo_enabled = False, click_token = 0, click_registered = False\<rparr>)"
proof -
  let ?on = "\<lparr>turbo_enabled = True, click_token = 1, click_registered = True\<rparr>"
  have h1: "pressed \<lparr>pressed = True\<rparr>" and h2: "\<not> pressed \<lparr>pressed = False\<rparr>" by simp_all
  have h3: "\<not> turbo_enabled (initial_turbo sample_turbo_env)"
    and h4: "click_token (initial_turbo sample_turbo_env) = INVALID_DEFERRED_TOKEN sample_turbo_env"
    and h5: "\<not> click_registered (initial_turbo sample_turbo_env)"
    by (simp_all add: initial_turbo_def sample_turbo_env_def)
  have h6: "turbo_enabled ?on" and h7: "click_token ?on \<noteq> INVALID_DEFERRED_TOKEN sample_turbo_env"
    and h8: "click_registered ?on"
    by (simp_all add: sample_turbo_env_def)
  have v: "MOUSE_TURBO_CLICK_KEY sample_turbo_env = 209" "defer_exec_token sample_turbo_env = 1"
    "INVALID_DEFERRED_TOKEN sample_turbo_env = 0"
    by (simp_all add: sample_turbo_env_def)
  note a = turbo_click_toggles_on_press_only [of sample_turbo_env 30000 "\<lparr>pressed = True\<rparr>" 30000
      "initial_turbo sample_turbo_env"]
  note b = turbo_click_toggles_on_press_only [of sample_turbo_env 30000 "\<lparr>pressed = False\<rparr>" 30000 ?on]
  note c = turbo_click_toggles_on_press_only [of sample_turbo_env 30000 "\<lparr>pressed = True\<rparr>" 30000 ?on]
  from a have a1: "fst (process_mouse_turbo_click sample_turbo_env 30000 \<lparr>pressed = True\<rparr> 30000
     (initial_turbo sample_turbo_env)) = False" by blast
  from a h1 h3 h4 have a2: "snd (process_mouse_turbo_click sample_turbo_env 30000
     \<lparr>pressed = True\<rparr> 30000 (initial_turbo sample_turbo_env)) =
        ([if click_registered (initial_turbo sample_turbo_env)
          then Unregister_code16 (MOUSE_TURBO_CLICK_KEY sample_turbo_env)
          else Register_code16 (MOUSE_TURBO_CLICK_KEY sample_turbo_env), Defer_exec 5],
         \<lparr>turbo_enabled = True, click_token = defer_exec_token sample_turbo_env,
          click_registered = (\<not> click_registered (initial_turbo sample_turbo_env))\<rparr>)"
    by blast
  have ra: "process_mouse_turbo_click sample_turbo_env 30000 \<lparr>pressed = True\<rparr> 30000
     (initial_turbo sample_turbo_env) =
     (False, [Register_code16 209, Defer_exec 5],
      \<lparr>turbo_enabled = True, click_token = 1, click_registered = True\<rparr>)"
    by (rule prod_eqI) (simp_all add: a1 a2 h5 v)
  from b have b1: "fst (process_mouse_turbo_click sample_turbo_env 30000 \<lparr>pressed = False\<rparr>
     30000 ?on) = False" by blast
  from b h2 have b2: "snd (process_mouse_turbo_click sample_turbo_env 30000 \<lparr>pressed = False\<rparr>
     30000 ?on) = ([], ?on)" by blast
  have rb: "process_mouse_turbo_click sample_turbo_env 30000 \<lparr>pressed = False\<rparr> 30000 ?on =
     (False, [], ?on)"
    by (rule prod_eqI) (simp_all add: b1 b2)
  from c have c1: "fst (process_mouse_turbo_click sample_turbo_env 30000 \<lparr>pressed = True\<rparr>
     30000 ?on) = False" by blast
  from c h1 h6 h7 have c2: "snd (process_mouse_turbo_click sample_turbo_env 30000
     \<lparr>pressed = True\<rparr> 30000 ?on) =
        (Cancel_deferred_exec (click_token ?on) #
           (if click_registered ?on then [Unregister_code16 (MOUSE_TURBO_CLICK_KEY sample_turbo_env)]
            else []),
         \<lparr>turbo_enabled = False, click_token = INVALID_DEFERRED_TOKEN sample_turbo_env,
          click_registered = False\<rparr>)"
    by blast
  have rc: "process_mouse_turbo_click sample_turbo_env 30000 \<lparr>pressed = True\<rparr> 30000 ?on =
     (False, [Cancel_deferred_exec 1, Unregister_code16 209],
      \<lparr>turbo_enabled = False, click_token = 0, click_registered = False\<rparr>)"
    by (rule prod_eqI) (simp_all add: c1 c2 v)
  from h1 h2 h3 h4 h6 h7 ra rb rc show ?thesis by blast
qed

section \<open>Reachable states\<close>

text \<open>
  The handler keeps the hold buffer an ordered set, so the snapshot of every release pass
  starts, and stays, without a repeated keycode other than 0.
\<close>

lemma process_buffer_ok:
  assumes "buffer_ok s"
  shows "buffer_ok (snd (snd (process_key_cancellation e keycode record s)))"
proof -
  from assms have wf: "engine_wf s" and d: "distinct (hold_buffer s)"
    by (simp_all add: buffer_ok_def)
  have "distinct (hold_buffer (snd (snd (process_key_cancellation e keycode record s))))"
    using d by (simp add: process_hold_buffer [OF wf])
  with process_wf [OF wf] show ?thesis by (simp add: buffer_ok_def)
qed

lemma run_events_buffer_ok: "buffer_ok s \<Longrightarrow> buffer_ok (run_events e evs s)"
  by (induction e evs s rule: run_events.induct) (simp_all add: process_buffer_ok)

lemma reachable_buffer_ok: "buffer_ok (run_events e evs (initial_engine cfg))"
  by (rule run_events_buffer_ok [OF initial_engine_ok])

lemma release_pass_snapshot_ok:
  "snapshot_ok (scan_pairs ps j (scan_snapshot (key_cancellation_table e) n
     ((del_key_buffer (run_events e evs (initial_engine cfg)) k)
        \<lparr>buffer_keyreports_temp :=
           buffer_keyreports (del_key_buffer (run_events e evs (initial_engine cfg)) k)\<rparr>)))"
  by (intro snapshot_ok_scan_pairs snapshot_ok_scan_snapshot snapshot_ok_memcpy
      del_key_buffer_ok reachable_buffer_ok)

section \<open>The release pass as a whole\<close>

lemma scan_pair_exact:
  assumes "snapshot_ok s" "j < buffer_keyreport_count s" "i < buffer_keyreport_count s"
  shows "buffer_keyreports_temp (scan_pair p j s) ! i =
           (if press p = buffer_keyreports_temp s ! j \<and>
               key_cancellation_is_key_in_buffer s (unpress p) \<and>
               i < j \<and> buffer_keyreports_temp s ! i = unpress p
            then 0 else buffer_keyreports_temp s ! i)"
proof (cases "press p = buffer_keyreports_temp s ! j \<and>
               key_cancellation_is_key_in_buffer s (unpress p)")
  case True
  then show ?thesis using scan_pair_clears [OF assms(1,2) _ _ assms(3), of p] by simp
next
  case False
  then have "scan_pair p j s = s" by (auto simp: scan_pair_def)
  with False show ?thesis by auto
qed

text \<open>One position of the pass, over the whole table.\<close>

lemma scan_pairs_exact:
  assumes "snapshot_ok s" "j < buffer_keyreport_count s" "i < buffer_keyreport_count s"
  shows "buffer_keyreports_temp (scan_pairs ps j s) ! i =
           (if i < j \<and> (\<exists>p \<in> set ps. press p = buffer_keyreports_temp s ! j \<and>
                            key_cancellation_is_key_in_buffer s (unpress p) \<and>
                            buffer_keyreports_temp s ! i = unpress p)
            then 0 else buffer_keyreports_temp s ! i)"
  using assms
proof (induction ps arbitrary: s)
  case Nil
  then show ?case by simp
next
  case (Cons q qs)
  let ?s1 = "scan_pair q j s"
  have ok1: "snapshot_ok ?s1" using Cons.prems(1) by (rule snapshot_ok_scan_pair)
  have n1: "buffer_keyreport_count ?s1 = buffer_keyreport_count s" by (simp add: scan_pair_frame)
  have tj: "buffer_keyreports_temp ?s1 ! j = buffer_keyreports_temp s ! j"
    using scan_pair_exact [OF Cons.prems(1,2,2), of q] by simp
  have ti: "buffer_keyreports_temp ?s1 ! i =
           (if press q = buffer_keyreports_temp s ! j \<and>
               key_cancellation_is_key_in_buffer s (unpress q) \<and>
               i < j \<and> buffer_keyreports_temp s ! i = unpress q
            then 0 else buffer_keyreports_temp s ! i)"
    by (rule scan_pair_exact [OF Cons.prems])
  have ih: "buffer_keyreports_temp (scan_pairs qs j ?s1) ! i =
           (if i < j \<and> (\<exists>p \<in> set qs. press p = buffer_keyreports_temp s ! j \<and>
                            key_cancellation_is_key_in_buffer s (unpress p) \<and>
                            buffer_keyreports_temp ?s1 ! i = unpress p)
            then 0 else buffer_keyreports_temp ?s1 ! i)"
    using Cons.IH [OF ok1] Cons.prems(2,3) by (simp add: n1 tj scan_pair_in_buffer)
  show ?case
  proof (cases "press q = buffer_keyreports_temp s ! j \<and>
               key_cancellation_is_key_in_buffer s (unpress q) \<and>
               i < j \<and> buffer_keyreports_temp s ! i = unpress q")
    case True
    with ti have "buffer_keyreports_temp ?s1 ! i = 0" by simp
    with True show ?thesis by (auto simp: ih)
  next
    case False
    with ti have "buffer_keyreports_temp ?s1 ! i = buffer_keyreports_temp s ! i" by simp
    with False show ?thesis by (auto simp: ih)
  qed
qed

lemma scan_above_frame:
  "buffer_keyreports (scan_above ps j d s) = buffer_keyreports s \<and>
   buffer_keyreport_count (scan_above ps j d s) = buffer_keyreport_count s \<and>
   keymap_config (scan_above ps j d s) = keymap_config s \<and>
   length (buffer_keyreports_temp (scan_above ps j d s)) = length (buffer_keyreports_temp s)"
  by (induction d arbitrary: s) (simp_all add: scan_pairs_frame)

lemma scan_above_in_buffer:
  "key_cancellation_is_key_in_buffer (scan_above ps j d s) k = key_cancellation_is_key_in_buffer s k"
  by (simp add: key_cancellation_is_key_in_buffer_def scan_above_frame)

lemma snapshot_ok_scan_above: "snapshot_ok s \<Longrightarrow> snapshot_ok (scan_above ps j d s)"
  by (induction d arbitrary: s) (simp_all add: snapshot_ok_scan_pairs)

text \<open>The pass is: the positions above \<open>j\<close>, then \<open>j\<close>, then the positions below.\<close>

lemma scan_snapshot_split:
  "scan_snapshot ps (Suc j + d) s = scan_snapshot ps (Suc j) (scan_above ps j d s)"
  by (induction d arbitrary: s) simp_all

lemma scan_snapshot_reaches:
  assumes "j < n"
  shows "scan_snapshot ps n s = scan_snapshot ps j (scan_pairs ps j (scan_above ps j (n - Suc j) s))"
proof -
  from assms have "n = Suc j + (n - Suc j)" by simp
  then have "scan_snapshot ps n s = scan_snapshot ps (Suc j) (scan_above ps j (n - Suc j) s)"
    using scan_snapshot_split [of ps j "n - Suc j" s] by simp
  then show ?thesis by simp
qed

lemma scan_snapshot_zero:
  "m < length (buffer_keyreports_temp s) \<Longrightarrow> buffer_keyreports_temp s ! m = 0 \<Longrightarrow>
   buffer_keyreports_temp (scan_snapshot ps n s) ! m = 0"
  by (induction n arbitrary: s) (simp_all add: scan_pairs_zero scan_pairs_frame)

lemma tracked_in_buffer:
  "buffer_keyreport_count s \<le> length (buffer_keyreports s) \<Longrightarrow> i < buffer_keyreport_count s \<Longrightarrow>
   key_cancellation_is_key_in_buffer s (buffer_keyreports s ! i)"
  by (auto simp: key_cancellation_is_key_in_buffer_def is_key_in_buffer_from_iff)

text \<open>
  The snapshot a pass leaves. The scan descends and clears only before the position it is
  at, so the keycode found at a position when the scan reaches it is the one the pass
  leaves there; a slot ends as 0 exactly when it was 0 or some later position, with the
  keycode left there, is the press of a pair whose unpress is the tracked key of the slot.
\<close>

lemma scan_snapshot_exact:
  assumes "snapshot_ok s"
    and "buffer_keyreport_count s \<le> length (buffer_keyreports s)"
    and "m \<le> buffer_keyreport_count s"
    and "\<forall>i < buffer_keyreport_count s.
           buffer_keyreports_temp s ! i = buffer_keyreports s ! i \<or> buffer_keyreports_temp s ! i = 0"
    and "i < buffer_keyreport_count s"
  shows "buffer_keyreports_temp (scan_snapshot ps m s) ! i =
           (if i < m \<and> (\<exists>j. i < j \<and> j < m \<and>
                 (\<exists>p \<in> set ps. press p = buffer_keyreports_temp (scan_snapshot ps m s) ! j \<and>
                                 unpress p = buffer_keyreports s ! i))
            then 0 else buffer_keyreports_temp s ! i)"
  using assms
proof (induction m arbitrary: s i)
  case 0
  then show ?case by simp
next
  case (Suc k)
  let ?n = "buffer_keyreport_count s"
  let ?b = "buffer_keyreports s"
  let ?t = "buffer_keyreports_temp s"
  let ?s' = "scan_pairs ps k s"
  let ?F = "buffer_keyreports_temp (scan_snapshot ps k ?s')"
  from Suc.prems(3) have kn: "k < ?n" by simp
  have n_len: "?n \<le> length ?t" using Suc.prems(1) by (simp add: snapshot_ok_def)
  have ok': "snapshot_ok ?s'" using Suc.prems(1) by (rule snapshot_ok_scan_pairs)
  have fr: "buffer_keyreports ?s' = ?b" "buffer_keyreport_count ?s' = ?n"
    by (simp_all add: scan_pairs_frame)
  have E: "buffer_keyreports_temp ?s' ! x =
           (if x < k \<and> (\<exists>p \<in> set ps. press p = ?t ! k \<and>
                            key_cancellation_is_key_in_buffer s (unpress p) \<and> ?t ! x = unpress p)
            then 0 else ?t ! x)" if "x < ?n" for x
    by (rule scan_pairs_exact [OF Suc.prems(1) kn that])
  have orig': "\<forall>x < buffer_keyreport_count ?s'.
      buffer_keyreports_temp ?s' ! x = buffer_keyreports ?s' ! x \<or> buffer_keyreports_temp ?s' ! x = 0"
    using Suc.prems(4) E by (auto simp: fr)
  have IH: "?F ! x =
           (if x < k \<and> (\<exists>j. x < j \<and> j < k \<and>
                 (\<exists>p \<in> set ps. press p = ?F ! j \<and> unpress p = ?b ! x))
            then 0 else buffer_keyreports_temp ?s' ! x)" if "x < ?n" for x
    using Suc.IH [OF ok', of x] Suc.prems(2) kn orig' that by (simp add: fr)
  have Fk: "?F ! k = ?t ! k" using IH [OF kn] E [OF kn] by simp
  have res: "scan_snapshot ps (Suc k) s = scan_snapshot ps k ?s'" by simp
  note i = Suc.prems(5)
  show ?case unfolding res
  proof (cases "i < k")
    case False
    then have "\<not> (\<exists>j. i < j \<and> j < Suc k)" by auto
    moreover from False IH [OF i] E [OF i] have "?F ! i = ?t ! i" by simp
    ultimately show "?F ! i =
           (if i < Suc k \<and> (\<exists>j. i < j \<and> j < Suc k \<and>
                 (\<exists>p \<in> set ps. press p = ?F ! j \<and> unpress p = ?b ! i))
            then 0 else ?t ! i)"
      by auto
  next
    case ik: True
    let ?Q = "\<lambda>j. \<exists>p \<in> set ps. press p = ?F ! j \<and> unpress p = ?b ! i"
    have split: "(\<exists>j. i < j \<and> j < Suc k \<and> ?Q j) \<longleftrightarrow> (\<exists>j. i < j \<and> j < k \<and> ?Q j) \<or> ?Q k"
      using ik by (auto simp: less_Suc_eq)
    show "?F ! i =
           (if i < Suc k \<and> (\<exists>j. i < j \<and> j < Suc k \<and> ?Q j) then 0 else ?t ! i)"
    proof (cases "\<exists>j. i < j \<and> j < k \<and> ?Q j")
      case True
      with ik IH [OF i] split show ?thesis by simp
    next
      case nomid: False
      with IH [OF i] have Fi: "?F ! i = buffer_keyreports_temp ?s' ! i" by simp
      have inb: "key_cancellation_is_key_in_buffer s (?b ! i)"
        using Suc.prems(2) i by (rule tracked_in_buffer)
      from Suc.prems(4) i have "?t ! i = ?b ! i \<or> ?t ! i = 0" by simp
      then show ?thesis
      proof
        assume eq: "?t ! i = ?b ! i"
        have "(\<exists>p \<in> set ps. press p = ?t ! k \<and>
                 key_cancellation_is_key_in_buffer s (unpress p) \<and> ?t ! i = unpress p) \<longleftrightarrow> ?Q k"
          using inb eq Fk by auto
        with E [OF i] ik Fi nomid split show ?thesis by auto
      next
        assume z: "?t ! i = 0"
        with E [OF i] have "buffer_keyreports_temp ?s' ! i = 0" by auto
        with Fi z show ?thesis by simp
      qed
    qed
  qed
qed

text \<open>A release that reaches the algorithm, whether or not its keycode is listed.\<close>

lemma release_reaches_pass:
  assumes "key_cancellation_enable (keymap_config s)"
    and "key_cancellation_recovery_enable (keymap_config s)"
    and "IS_BASIC_KEYCODE e k"
    and "process_key_cancellation_user e k \<lparr>pressed = False\<rparr>"
    and "s1 = (if key_cancellation_is_key_in_press_list (key_cancellation_table e) k
               then del_key_buffer s k else s)"
  shows "process_key_cancellation e k \<lparr>pressed = False\<rparr> s =
    (if buffer_keyreport_count s1 = 0 then (True, [], s1)
     else (True,
       compare_buffers_from
         (scan_snapshot (key_cancellation_table e) (buffer_keyreport_count s1)
            (s1\<lparr>buffer_keyreports_temp := buffer_keyreports s1\<rparr>)) 0,
       scan_snapshot (key_cancellation_table e) (buffer_keyreport_count s1)
            (s1\<lparr>buffer_keyreports_temp := buffer_keyreports s1\<rparr>)))"
  using assms by (simp add: process_key_cancellation_def Let_def)

text \<open>
  C3, as the code has it. A release event reaches the algorithm with a buffer that is an
  ordered set, as it is in every reachable state; \<open>s1\<close> is the state after the buffer
  update and \<open>n\<close> its count. The pass scans the snapshot positions from \<open>n - 1\<close> down
  to 0: for a position \<open>j\<close>, \<open>sj\<close> is the state in which the scan reaches \<open>j\<close>, and
  the handler's result is the scan of \<open>j\<close> on \<open>sj\<close> followed by the positions below.
  At position \<open>j\<close>, for each pair whose press is the keycode at snapshot position \<open>j\<close>
  and whose unpress is in the hold buffer, every snapshot position strictly before \<open>j\<close>
  that holds the unpress keycode is set to 0, and is 0 at the end of the pass; no other
  position changes at \<open>j\<close>, position \<open>j\<close> itself included. The snapshot the pass leaves
  is 0 at a position exactly when a later position, with the keycode left there, is the
  press of a pair whose unpress is the tracked key of that position; every other position
  holds its tracked key.
\<close>

theorem release_pass_clears_unpress_before_position:
  fixes e :: environment and s :: engine and k :: keycode and j :: nat
  defines "T \<equiv> key_cancellation_table e"
  defines "s1 \<equiv> (if key_cancellation_is_key_in_press_list T k then del_key_buffer s k else s)"
  defines "n \<equiv> buffer_keyreport_count s1"
  defines "sj \<equiv> scan_above T j (n - Suc j) (s1\<lparr>buffer_keyreports_temp := buffer_keyreports s1\<rparr>)"
  defines "s' \<equiv> snd (snd (process_key_cancellation e k \<lparr>pressed = False\<rparr> s))"
  assumes "buffer_ok s"
    and "key_cancellation_enable (keymap_config s)"
    and "key_cancellation_recovery_enable (keymap_config s)"
    and "IS_BASIC_KEYCODE e k"
    and "process_key_cancellation_user e k \<lparr>pressed = False\<rparr>"
    and "j < n"
  shows "s' = scan_snapshot T j (scan_pairs T j sj) \<and>
         (\<forall>p \<in> set T. press p = buffer_keyreports_temp sj ! j \<and>
              key_cancellation_is_key_in_buffer sj (unpress p) \<longrightarrow>
            (\<forall>i < j. buffer_keyreports_temp sj ! i = unpress p \<longrightarrow>
               buffer_keyreports_temp (scan_pairs T j sj) ! i = 0 \<and>
               buffer_keyreports_temp s' ! i = 0)) \<and>
         (\<forall>i < n. buffer_keyreports_temp (scan_pairs T j sj) ! i =
            (if i < j \<and> (\<exists>p \<in> set T. press p = buffer_keyreports_temp sj ! j \<and>
                             key_cancellation_is_key_in_buffer sj (unpress p) \<and>
                             buffer_keyreports_temp sj ! i = unpress p)
             then 0 else buffer_keyreports_temp sj ! i)) \<and>
         (\<forall>i < n. buffer_keyreports_temp s' ! i =
            (if \<exists>j'. i < j' \<and> j' < n \<and>
                  (\<exists>p \<in> set T. press p = buffer_keyreports_temp s' ! j' \<and>
                                  unpress p = buffer_keyreports s1 ! i)
             then 0 else buffer_keyreports s1 ! i))"
proof -
  let ?s0 = "s1\<lparr>buffer_keyreports_temp := buffer_keyreports s1\<rparr>"
  have ok1: "buffer_ok s1"
    using assms(6) by (simp add: s1_def del_key_buffer_ok)
  have ok0: "snapshot_ok ?s0" using ok1 by (rule snapshot_ok_memcpy)
  have n0: "buffer_keyreport_count ?s0 = n" "buffer_keyreports ?s0 = buffer_keyreports s1"
    by (simp_all add: n_def)
  have nlen: "n \<le> length (buffer_keyreports s1)"
    using ok1 by (simp add: buffer_ok_def engine_wf_def n_def)
  have okj: "snapshot_ok sj" unfolding sj_def using ok0 by (rule snapshot_ok_scan_above)
  have nj: "buffer_keyreport_count sj = n" by (simp add: sj_def scan_above_frame n0)
  have lenj: "n \<le> length (buffer_keyreports_temp sj)"
    using okj by (simp add: snapshot_ok_def nj)
  from assms(11) have "n \<noteq> 0" by simp
  with release_reaches_pass [OF assms(7-10) s1_def [unfolded T_def, THEN meta_eq_to_obj_eq]]
  have final: "s' = scan_snapshot T n ?s0"
    by (simp add: s'_def n_def T_def)
  have a: "s' = scan_snapshot T j (scan_pairs T j sj)"
    unfolding final sj_def using assms(11) by (rule scan_snapshot_reaches)
  have c: "\<forall>i < n. buffer_keyreports_temp (scan_pairs T j sj) ! i =
            (if i < j \<and> (\<exists>p \<in> set T. press p = buffer_keyreports_temp sj ! j \<and>
                             key_cancellation_is_key_in_buffer sj (unpress p) \<and>
                             buffer_keyreports_temp sj ! i = unpress p)
             then 0 else buffer_keyreports_temp sj ! i)"
    using scan_pairs_exact [OF okj, of j _ T] assms(11) by (simp add: nj)
  have b: "\<forall>p \<in> set T. press p = buffer_keyreports_temp sj ! j \<and>
              key_cancellation_is_key_in_buffer sj (unpress p) \<longrightarrow>
            (\<forall>i < j. buffer_keyreports_temp sj ! i = unpress p \<longrightarrow>
               buffer_keyreports_temp (scan_pairs T j sj) ! i = 0 \<and>
               buffer_keyreports_temp s' ! i = 0)"
  proof (intro ballI impI allI)
    fix p i
    assume p: "p \<in> set T" and m: "press p = buffer_keyreports_temp sj ! j \<and>
              key_cancellation_is_key_in_buffer sj (unpress p)"
      and i: "i < j" and u: "buffer_keyreports_temp sj ! i = unpress p"
    from i assms(11) have "i < n" by simp
    with c p m i u have z: "buffer_keyreports_temp (scan_pairs T j sj) ! i = 0" by auto
    have "i < length (buffer_keyreports_temp (scan_pairs T j sj))"
      using \<open>i < n\<close> lenj by (simp add: scan_pairs_frame)
    from scan_snapshot_zero [OF this z, of T j] z
    show "buffer_keyreports_temp (scan_pairs T j sj) ! i = 0 \<and> buffer_keyreports_temp s' ! i = 0"
      by (simp add: a)
  qed
  have d: "\<forall>i < n. buffer_keyreports_temp s' ! i =
            (if \<exists>j'. i < j' \<and> j' < n \<and>
                  (\<exists>p \<in> set T. press p = buffer_keyreports_temp s' ! j' \<and>
                                  unpress p = buffer_keyreports s1 ! i)
             then 0 else buffer_keyreports s1 ! i)"
  proof (intro allI impI)
    fix i assume i: "i < n"
    have "buffer_keyreports_temp (scan_snapshot T n ?s0) ! i =
           (if i < n \<and> (\<exists>j. i < j \<and> j < n \<and>
                 (\<exists>p \<in> set T. press p = buffer_keyreports_temp (scan_snapshot T n ?s0) ! j \<and>
                                 unpress p = buffer_keyreports ?s0 ! i))
            then 0 else buffer_keyreports_temp ?s0 ! i)"
      by (rule scan_snapshot_exact [OF ok0]) (simp_all add: n0 nlen i)
    with i show "buffer_keyreports_temp s' ! i =
            (if \<exists>j'. i < j' \<and> j' < n \<and>
                  (\<exists>p \<in> set T. press p = buffer_keyreports_temp s' ! j' \<and>
                                  unpress p = buffer_keyreports s1 ! i)
             then 0 else buffer_keyreports s1 ! i)"
      by (auto simp: final)
  qed
  from a b c d show ?thesis by blast
qed

theorem release_pass_clears_unpress_before_position_witness:
  "buffer_ok (run_events (sample_env [pair 7 4, pair 4 7, pair 6 99])
      [(4, True), (7, True), (6, True)] (initial_engine (config True True))) \<and>
   key_cancellation_enable (keymap_config (run_events (sample_env [pair 7 4, pair 4 7, pair 6 99])
      [(4, True), (7, True), (6, True)] (initial_engine (config True True)))) \<and>
   key_cancellation_recovery_enable (keymap_config
     (run_events (sample_env [pair 7 4, pair 4 7, pair 6 99])
      [(4, True), (7, True), (6, True)] (initial_engine (config True True)))) \<and>
   IS_BASIC_KEYCODE (sample_env [pair 7 4, pair 4 7, pair 6 99]) 9 \<and>
   process_key_cancellation_user (sample_env [pair 7 4, pair 4 7, pair 6 99]) 9
     \<lparr>pressed = False\<rparr> \<and>
   hold_buffer (run_events (sample_env [pair 7 4, pair 4 7, pair 6 99])
      [(4, True), (7, True), (6, True)] (initial_engine (config True True))) = [4, 7, 6] \<and>
   pair 7 4 \<in> set (key_cancellation_table (sample_env [pair 7 4, pair 4 7, pair 6 99])) \<and>
   snd (snd (process_key_cancellation (sample_env [pair 7 4, pair 4 7, pair 6 99]) 9
     \<lparr>pressed = False\<rparr>
     (run_events (sample_env [pair 7 4, pair 4 7, pair 6 99])
        [(4, True), (7, True), (6, True)] (initial_engine (config True True))))) =
   scan_snapshot [pair 7 4, pair 4 7, pair 6 99] 1
     (scan_pairs [pair 7 4, pair 4 7, pair 6 99] 1
        (scan_above [pair 7 4, pair 4 7, pair 6 99] 1 1
           ((run_events (sample_env [pair 7 4, pair 4 7, pair 6 99])
               [(4, True), (7, True), (6, True)] (initial_engine (config True True)))
            \<lparr>buffer_keyreports_temp := buffer_keyreports
               (run_events (sample_env [pair 7 4, pair 4 7, pair 6 99])
                  [(4, True), (7, True), (6, True)] (initial_engine (config True True)))\<rparr>))) \<and>
   buffer_keyreports_temp (snd (snd (process_key_cancellation
     (sample_env [pair 7 4, pair 4 7, pair 6 99]) 9 \<lparr>pressed = False\<rparr>
     (run_events (sample_env [pair 7 4, pair 4 7, pair 6 99])
        [(4, True), (7, True), (6, True)] (initial_engine (config True True)))))) ! 0 = 0 \<and>
   fst (snd (process_key_cancellation
     (sample_env [pair 7 4, pair 4 7, pair 6 99]) 9 \<lparr>pressed = False\<rparr>
     (run_events (sample_env [pair 7 4, pair 4 7, pair 6 99])
        [(4, True), (7, True), (6, True)] (initial_engine (config True True))))) =
     [Del_key 4, Add_key 7, Add_key 6]"
proof -
  let ?e = "sample_env [pair 7 4, pair 4 7, pair 6 99]"
  let ?T = "key_cancellation_table ?e"
  let ?s = "run_events ?e [(4, True), (7, True), (6, True)] (initial_engine (config True True))"
  let ?s1 = "if key_cancellation_is_key_in_press_list ?T 9 then del_key_buffer ?s 9 else ?s"
  let ?n = "buffer_keyreport_count ?s1"
  let ?sj = "scan_above ?T 1 (?n - Suc 1) (?s1\<lparr>buffer_keyreports_temp := buffer_keyreports ?s1\<rparr>)"
  let ?s' = "snd (snd (process_key_cancellation ?e 9 \<lparr>pressed = False\<rparr> ?s))"
  have h1: "buffer_ok ?s" by code_simp
  have h2: "key_cancellation_enable (keymap_config ?s)" by code_simp
  have h3: "key_cancellation_recovery_enable (keymap_config ?s)" by code_simp
  have h4: "IS_BASIC_KEYCODE ?e 9" by (simp add: sample_env_def)
  have h5: "process_key_cancellation_user ?e 9 \<lparr>pressed = False\<rparr>" by (simp add: sample_env_def)
  have h6: "1 < ?n" by code_simp
  have hb: "hold_buffer ?s = [4, 7, 6]" by code_simp
  have pin: "pair 7 4 \<in> set ?T" by (simp add: sample_env_def)
  have m1: "press (pair 7 4) = buffer_keyreports_temp ?sj ! 1" by code_simp
  have m2: "key_cancellation_is_key_in_buffer ?sj (unpress (pair 7 4))" by code_simp
  have u: "buffer_keyreports_temp ?sj ! 0 = unpress (pair 7 4)" by code_simp
  have acts: "fst (snd (process_key_cancellation ?e 9 \<lparr>pressed = False\<rparr> ?s)) =
     [Del_key 4, Add_key 7, Add_key 6]" by code_simp
  have tab: "?T = [pair 7 4, pair 4 7, pair 6 99]" by (simp add: sample_env_def)
  have npl: "\<not> key_cancellation_is_key_in_press_list ?T 9" by code_simp
  have s1: "?s1 = ?s" by (simp only: npl if_False)
  have n: "buffer_keyreport_count ?s - Suc 1 = 1" by code_simp
  note t = release_pass_clears_unpress_before_position
    [where e = ?e and s = ?s and k = 9 and j = 1, OF h1 h2 h3 h4 h5 h6]
  from t have a: "?s' = scan_snapshot ?T 1 (scan_pairs ?T 1 ?sj)" by (rule conjunct1)
  have b: "\<forall>p \<in> set ?T. press p = buffer_keyreports_temp ?sj ! 1 \<and>
              key_cancellation_is_key_in_buffer ?sj (unpress p) \<longrightarrow>
            (\<forall>i < 1. buffer_keyreports_temp ?sj ! i = unpress p \<longrightarrow>
               buffer_keyreports_temp (scan_pairs ?T 1 ?sj) ! i = 0 \<and>
               buffer_keyreports_temp ?s' ! i = 0)"
    by (rule t [THEN conjunct2, THEN conjunct1])
  have z: "buffer_keyreports_temp ?s' ! 0 = 0"
    using b [rule_format, OF pin conjI [OF m1 m2] _ u] by simp
  from a [unfolded s1, unfolded n, unfolded tab] have a': "?s' = scan_snapshot [pair 7 4, pair 4 7, pair 6 99] 1
     (scan_pairs [pair 7 4, pair 4 7, pair 6 99] 1
        (scan_above [pair 7 4, pair 4 7, pair 6 99] 1 1
           (?s\<lparr>buffer_keyreports_temp := buffer_keyreports ?s\<rparr>)))"
    .
  from h1 h2 h3 h4 h5 hb pin a' z acts show ?thesis by blast
qed

text \<open>
  C3 as stated fails at position \<open>j\<close> itself: with the pair (4, 4) in the table and
  keycode 4 tracked at position 0, the scan at \<open>j = 0\<close> leaves position 0 as it is, and
  the release pass of the handler ends with 4 at snapshot position 0 and registers it.
\<close>

theorem scan_at_or_before_counterexample:
  "\<not> (\<forall>p j s. snapshot_ok s \<and> j < buffer_keyreport_count s \<and>
         press p = buffer_keyreports_temp s ! j \<and>
         key_cancellation_is_key_in_buffer s (unpress p) \<longrightarrow>
         (\<forall>i \<le> j. buffer_keyreports_temp s ! i = unpress p \<longrightarrow>
            buffer_keyreports_temp (scan_pair p j s) ! i = 0)) \<and>
   buffer_keyreports_temp (snd (snd (process_key_cancellation (sample_env [pair 4 4]) 9
     \<lparr>pressed = False\<rparr>
     (run_events (sample_env [pair 4 4]) [(4, True)] (initial_engine (config True True)))))) ! 0 = 4 \<and>
   fst (snd (process_key_cancellation (sample_env [pair 4 4]) 9 \<lparr>pressed = False\<rparr>
     (run_events (sample_env [pair 4 4]) [(4, True)] (initial_engine (config True True))))) =
     [Add_key 4]"
  (is "?neg \<and> ?run")
proof -
  have "?neg"
  proof
  let ?s = "run_events (sample_env [pair 4 4]) [(4, True)] (initial_engine (config True True))"
  assume a: "\<forall>p j s. snapshot_ok s \<and> j < buffer_keyreport_count s \<and>
         press p = buffer_keyreports_temp s ! j \<and>
         key_cancellation_is_key_in_buffer s (unpress p) \<longrightarrow>
         (\<forall>i \<le> j. buffer_keyreports_temp s ! i = unpress p \<longrightarrow>
            buffer_keyreports_temp (scan_pair p j s) ! i = 0)"
  have h: "snapshot_ok ?s \<and> 0 < buffer_keyreport_count ?s \<and>
         press (pair 4 4) = buffer_keyreports_temp ?s ! 0 \<and>
         key_cancellation_is_key_in_buffer ?s (unpress (pair 4 4))"
    by code_simp
  have u: "buffer_keyreports_temp ?s ! 0 = unpress (pair 4 4)" by code_simp
  from a h have "\<forall>i \<le> 0. buffer_keyreports_temp ?s ! i = unpress (pair 4 4) \<longrightarrow>
            buffer_keyreports_temp (scan_pair (pair 4 4) 0 ?s) ! i = 0"
    by blast
  with u have "buffer_keyreports_temp (scan_pair (pair 4 4) 0 ?s) ! 0 = 0" by blast
  moreover have "buffer_keyreports_temp (scan_pair (pair 4 4) 0 ?s) ! 0 = 4" by code_simp
  ultimately show False by simp
qed
  moreover have "?run" by code_simp
  ultimately show ?thesis by blast
qed

section \<open>What the host sees after a release pass\<close>






section \<open>No double hold while the cancelling key is held\<close>











end
